theory Spec2Isabelle
  imports Complex_Main "HOL-Library.Word" "HOL-Library.Log_Nat"
begin

unbundle bit_operations_syntax

section \<open>Transition states (nodeAgg.c, initialize_aggregate and advance_transition_function)\<close>

text \<open>
  A \<open>Datum\<close> is a machine word holding either a pass-by-value datum or a pointer to
  one. The model works on the values: \<open>datumCopy\<close>, \<open>pfree\<close> and the memory-context
  switches move a value between arenas and do not change it, so they do not appear.
\<close>

type_synonym Datum = nat

record NullableDatum =
  nd_value :: Datum
  nd_isnull :: bool

text \<open>\<open>AggStatePerGroupData\<close>: the mutable state of one aggregate in one group.\<close>

record AggStatePerGroupData =
  transValue :: Datum
  transValueIsNull :: bool
  noTransValue :: bool

text \<open>
  The sort object of a DISTINCT / ORDER BY aggregate: a datum sorter when there is one
  input column (every datum comes with its abbreviated key), a tuple sorter otherwise.
\<close>

record SortDatum =
  sd_value :: Datum
  sd_isnull :: bool
  sd_abbrev :: Datum

datatype Tuplesortstate =
    DatumSort "SortDatum list"
  | HeapSort "(NullableDatum list) list"

text \<open>
  The fields of \<open>AggStatePerTransData\<close> that the functions below read. \<open>transfn\<close> is
  \<open>FunctionCallInvoke\<close> on \<open>transfn_fcinfo\<close>: it reads the argument array (position 0
  is the transition value) and returns the new value with the \<open>isnull\<close> flag it left in
  the call info. \<open>equalfnOne\<close> is the equality operator of the single DISTINCT column.
\<close>

record AggStatePerTransData =
  fn_strict :: bool
  numTransInputs :: nat
  numInputs :: nat
  numSortCols :: nat
  numDistinctCols :: nat
  transfn :: "(nat \<Rightarrow> NullableDatum) \<Rightarrow> NullableDatum"
  equalfnOne :: "Datum \<Rightarrow> Datum \<Rightarrow> bool"
  initValue :: Datum
  initValueIsNull :: bool

text \<open>
  What one call of \<open>advance_transition_function\<close> can change: the argument array of the
  call info, the group's state, and (as an observation, not a field of the source) the
  number of times the transition function has been invoked.
\<close>

record TransEnv =
  args :: "nat \<Rightarrow> NullableDatum"
  pergroupstate :: AggStatePerGroupData
  transfn_calls :: nat

text \<open>
  \<open>initialize_aggregate\<close>: a DISTINCT / ORDER BY aggregate gets a fresh sort object;
  the transition value is (a copy of) the initial value, and both flags are the initial
  value's null flag.
\<close>

definition initialize_sortstate ::
  "AggStatePerTransData \<Rightarrow> Tuplesortstate option \<Rightarrow> Tuplesortstate option" where
  "initialize_sortstate pertrans sortstate =
     (if numSortCols pertrans > 0
      then (if numInputs pertrans = 1 then Some (DatumSort []) else Some (HeapSort []))
      else sortstate)"

definition initialize_aggregate :: "AggStatePerTransData \<Rightarrow> AggStatePerGroupData" where
  "initialize_aggregate pertrans =
     \<lparr>transValue = initValue pertrans,
      transValueIsNull = initValueIsNull pertrans,
      noTransValue = initValueIsNull pertrans\<rparr>"

text \<open>The loop \<open>for (i = 1; i <= numTransInputs; i++) if (args[i].isnull) return;\<close>\<close>

definition null_input :: "(nat \<Rightarrow> NullableDatum) \<Rightarrow> nat \<Rightarrow> bool" where
  "null_input a n = list_ex (\<lambda>i. nd_isnull (a i)) [1..<Suc n]"

definition advance_transition_function ::
  "AggStatePerTransData \<Rightarrow> TransEnv \<Rightarrow> TransEnv" where
  "advance_transition_function pertrans env =
     (let pg = pergroupstate env in
      if fn_strict pertrans \<and> null_input (args env) (numTransInputs pertrans) then env
      else if fn_strict pertrans \<and> noTransValue pg then
        env\<lparr>pergroupstate :=
              \<lparr>transValue = nd_value (args env 1),
               transValueIsNull = False,
               noTransValue = False\<rparr>\<rparr>
      else if fn_strict pertrans \<and> transValueIsNull pg then env
      else
        (let a = (args env)(0 := \<lparr>nd_value = transValue pg, nd_isnull = transValueIsNull pg\<rparr>);
             newVal = transfn pertrans a
         in env\<lparr>args := a,
                pergroupstate := pg\<lparr>transValue := nd_value newVal,
                                    transValueIsNull := nd_isnull newVal\<rparr>,
                transfn_calls := Suc (transfn_calls env)\<rparr>))"

text \<open>
  One input row of a group: its values are loaded into argument positions 1 and up
  (\<open>fcinfo->args[i + 1] = slot->tts_values[i]\<close>), then the state is advanced. A group is
  a list of rows.
\<close>

fun load_args :: "(nat \<Rightarrow> NullableDatum) \<Rightarrow> nat \<Rightarrow> NullableDatum list \<Rightarrow> nat \<Rightarrow> NullableDatum" where
  "load_args a i [] = a"
| "load_args a i (v # vs) = load_args (a(Suc i := v)) (Suc i) vs"

definition advance_row :: "AggStatePerTransData \<Rightarrow> TransEnv \<Rightarrow> NullableDatum list \<Rightarrow> TransEnv" where
  "advance_row pertrans env row =
     advance_transition_function pertrans
       (env\<lparr>args := load_args (args env) 0 (take (numTransInputs pertrans) row)\<rparr>)"

definition advance_rows :: "AggStatePerTransData \<Rightarrow> TransEnv \<Rightarrow> NullableDatum list list \<Rightarrow> TransEnv" where
  "advance_rows pertrans env rows = foldl (advance_row pertrans) env rows"

text \<open>A fresh group: initialised state, nothing invoked yet.\<close>

definition new_group :: "AggStatePerTransData \<Rightarrow> (nat \<Rightarrow> NullableDatum) \<Rightarrow> TransEnv" where
  "new_group pertrans a =
     \<lparr>args = a, pergroupstate = initialize_aggregate pertrans, transfn_calls = 0\<rparr>"

text \<open>
  \<open>finalize_aggregate\<close>: the direct arguments (already evaluated here) go to positions
  1 and up, the transition value to position 0, the remaining positions are null. A
  strict final function is not called on a null argument. Without a final function the
  result is the transition value.
\<close>

record AggStatePerAggData =
  finalfn :: "((nat \<Rightarrow> NullableDatum) \<Rightarrow> NullableDatum) option"
  finalfn_strict :: bool
  numFinalArgs :: nat

definition finalize_aggregate ::
  "AggStatePerAggData \<Rightarrow> AggStatePerGroupData \<Rightarrow> NullableDatum list \<Rightarrow> NullableDatum" where
  "finalize_aggregate peragg pg directargs =
     (case finalfn peragg of
        Some f \<Rightarrow>
          (let i = Suc (length directargs);
               a = load_args (\<lambda>_. \<lparr>nd_value = 0, nd_isnull = True\<rparr>) 0 directargs;
               a = a(0 := \<lparr>nd_value = transValue pg, nd_isnull = transValueIsNull pg\<rparr>);
               anynull = (list_ex nd_isnull directargs \<or> transValueIsNull pg
                          \<or> i < numFinalArgs peragg)
           in if finalfn_strict peragg \<and> anynull
              then \<lparr>nd_value = 0, nd_isnull = True\<rparr>
              else f a)
      | None \<Rightarrow> \<lparr>nd_value = transValue pg, nd_isnull = transValueIsNull pg\<rparr>)"

text \<open>
  \<open>process_ordered_aggregate_single\<close>: the loop over the sorted datums of a
  one-column DISTINCT / ORDER BY aggregate. \<open>tuplesort_getdatum\<close> stores each datum
  straight into argument position 1. The locals of the loop are the fields below; the two
  counters are observations: how often \<open>advance_transition_function\<close> and the
  equality operator \<open>equalfnOne\<close> were called.
\<close>

record OrderedSingle =
  os_env :: TransEnv
  oldVal :: Datum
  oldIsNull :: bool
  haveOldVal :: bool
  oldAbbrevVal :: Datum
  advance_calls :: nat
  equalfn_calls :: nat

definition ordered_single_init :: "TransEnv \<Rightarrow> OrderedSingle" where
  "ordered_single_init env =
     \<lparr>os_env = env, oldVal = 0, oldIsNull = True, haveOldVal = False, oldAbbrevVal = 0,
      advance_calls = 0, equalfn_calls = 0\<rparr>"

text \<open>
  The condition of the \<open>if\<close> is evaluated left to right with short-circuiting, so the
  equality operator runs only when both values are non-null and the abbreviated keys agree.
\<close>

definition ordered_single_step ::
  "AggStatePerTransData \<Rightarrow> OrderedSingle \<Rightarrow> SortDatum \<Rightarrow> OrderedSingle" where
  "ordered_single_step pertrans st d =
     (let isDistinct = (numDistinctCols pertrans > 0);
          env = (os_env st)\<lparr>args := (args (os_env st))
                   (1 := \<lparr>nd_value = sd_value d, nd_isnull = sd_isnull d\<rparr>)\<rparr>;
          bothnull = (oldIsNull st \<and> sd_isnull d);
          compare = (isDistinct \<and> haveOldVal st \<and> \<not> bothnull \<and>
                     \<not> oldIsNull st \<and> \<not> sd_isnull d \<and>
                     oldAbbrevVal st = sd_abbrev d);
          st1 = st\<lparr>equalfn_calls := equalfn_calls st + (if compare then 1 else 0)\<rparr>
      in if isDistinct \<and> haveOldVal st \<and>
            (bothnull \<or> (compare \<and> equalfnOne pertrans (oldVal st) (sd_value d)))
         then st1\<lparr>os_env := env\<rparr>
         else st1\<lparr>os_env := advance_transition_function pertrans env,
                  oldVal := sd_value d,
                  oldAbbrevVal := sd_abbrev d,
                  oldIsNull := sd_isnull d,
                  haveOldVal := True,
                  advance_calls := Suc (advance_calls st)\<rparr>)"

definition ordered_single_scan ::
  "AggStatePerTransData \<Rightarrow> OrderedSingle \<Rightarrow> SortDatum list \<Rightarrow> OrderedSingle" where
  "ordered_single_scan pertrans st ds = foldl (ordered_single_step pertrans) st ds"

text \<open>
  The whole function: \<open>performsort\<close> is the order \<open>tuplesort_performsort\<close> gives to
  the datums put into the sort object; the sort object is gone afterwards.
\<close>

definition process_ordered_aggregate_single ::
  "(SortDatum list \<Rightarrow> SortDatum list) \<Rightarrow> AggStatePerTransData \<Rightarrow> SortDatum list \<Rightarrow>
   TransEnv \<Rightarrow> OrderedSingle \<times> Tuplesortstate option" where
  "process_ordered_aggregate_single performsort pertrans inputs env =
     (ordered_single_scan pertrans (ordered_single_init env) (performsort inputs), None)"

subsection \<open>Sample aggregates\<close>

text \<open>
  \<open>max\<close> over one column: a strict transition function and no initial value.
  \<open>collect_pertrans\<close> is an aggregate in the manner of \<open>array_agg\<close>: the transition
  function is not strict, there is no initial value, and the state is non-null from the
  first row on.
\<close>

definition null_datum :: NullableDatum where
  "null_datum = \<lparr>nd_value = 0, nd_isnull = True\<rparr>"

definition datum :: "Datum \<Rightarrow> NullableDatum" where
  "datum v = \<lparr>nd_value = v, nd_isnull = False\<rparr>"

definition max_pertrans :: AggStatePerTransData where
  "max_pertrans =
     \<lparr>fn_strict = True, numTransInputs = 1, numInputs = 1, numSortCols = 0,
      numDistinctCols = 0,
      transfn = (\<lambda>a. \<lparr>nd_value = max (nd_value (a 0)) (nd_value (a 1)), nd_isnull = False\<rparr>),
      equalfnOne = (=), initValue = 0, initValueIsNull = True\<rparr>"

definition collect_pertrans :: AggStatePerTransData where
  "collect_pertrans =
     \<lparr>fn_strict = False, numTransInputs = 1, numInputs = 1, numSortCols = 0,
      numDistinctCols = 0,
      transfn = (\<lambda>a. \<lparr>nd_value = (if nd_isnull (a 0) then 1 else Suc (nd_value (a 0))),
                       nd_isnull = False\<rparr>),
      equalfnOne = (=), initValue = 0, initValueIsNull = True\<rparr>"

definition max_distinct_pertrans :: AggStatePerTransData where
  "max_distinct_pertrans = max_pertrans\<lparr>numSortCols := 1, numDistinctCols := 1\<rparr>"

definition no_finalfn :: AggStatePerAggData where
  "no_finalfn = \<lparr>finalfn = None, finalfn_strict = False, numFinalArgs = 1\<rparr>"

definition null_sortdatum :: SortDatum where
  "null_sortdatum = \<lparr>sd_value = 0, sd_isnull = True, sd_abbrev = 0\<rparr>"

definition sortdatum :: "Datum \<Rightarrow> SortDatum" where
  "sortdatum v = \<lparr>sd_value = v, sd_isnull = False, sd_abbrev = v\<rparr>"


section \<open>Hash aggregation: limits, partitions and spill tapes\<close>

text \<open>
  \<open>work_mem\<close> (kilobytes) and \<open>hashagg_mem_overflow\<close> are configuration variables;
  \<open>BLCKSZ\<close> is a build-time constant that this file does not define. All three are
  parameters of the model.
\<close>

record Config =
  BLCKSZ :: int
  work_mem :: int
  hashagg_mem_overflow :: bool

text \<open>
  A finite \<open>double\<close> is kept as a pair of integers, mantissa and exponent, and stands
  for the number mantissa times two to the exponent. The result of an operation on
  doubles is the exact result rounded to 53 significant bits, to the nearest such number
  and, half way between two of them, to the one with the even mantissa. The range of the
  exponent is not modelled: there is no overflow to infinity and no gradual underflow.
  The conversion of an unsigned 64-bit integer to a \<open>double\<close> rounds in the same way,
  and the conversion of a \<open>double\<close> to \<open>Size\<close> drops the fraction; C leaves that
  conversion undefined for a value that is negative or too large for the type, here a
  negative value gives 0 and a large one is kept.
\<close>

datatype double = Double (mantissa: int) (exponent: int)

definition real_of_double :: "double \<Rightarrow> real" where
  "real_of_double d =
     (if exponent d \<ge> 0 then real_of_int (mantissa d) * 2 ^ nat (exponent d)
      else real_of_int (mantissa d) / 2 ^ nat (- exponent d))"

definition round_to_double :: "int \<Rightarrow> int \<Rightarrow> double" where
  "round_to_double m e =
     (let k = bitlen \<bar>m\<bar> - 53
      in if k \<le> 0 then Double m e
         else
           (let q = \<bar>m\<bar> div 2 ^ nat k;
                r = \<bar>m\<bar> mod 2 ^ nat k;
                half = 2 ^ nat (k - 1);
                q = (if r > half \<or> (r = half \<and> odd q) then q + 1 else q)
            in Double (sgn m * q) (e + k)))"

definition double_mult :: "double \<Rightarrow> double \<Rightarrow> double" where
  "double_mult x y = round_to_double (mantissa x * mantissa y) (exponent x + exponent y)"

definition double_of_uint64 :: "nat \<Rightarrow> double" where
  "double_of_uint64 n = round_to_double (int n) 0"

definition double_to_Size :: "double \<Rightarrow> nat" where
  "double_to_Size d =
     (if exponent d \<ge> 0 then nat (mantissa d) * 2 ^ nat (exponent d)
      else nat (mantissa d) div 2 ^ nat (- exponent d))"

definition HASH_PARTITION_FACTOR :: double where
  "HASH_PARTITION_FACTOR = Double 3 (- 1)"

definition HASH_MIN_PARTITIONS :: int where
  "HASH_MIN_PARTITIONS = 4"

definition HASH_MAX_PARTITIONS :: int where
  "HASH_MAX_PARTITIONS = 256"

definition HASH_PARTITION_MEM :: "Config \<Rightarrow> int" where
  "HASH_PARTITION_MEM cfg = HASH_MIN_PARTITIONS * BLCKSZ cfg"

definition SIZE_MAX :: int where
  "SIZE_MAX = 2 ^ 64 - 1"

definition LONG_MAX :: int where
  "LONG_MAX = 2 ^ 63 - 1"

text \<open>
  The thresholds that \<open>ExecInitAgg\<close> computes when hashing is used. \<open>hashentrysize\<close>
  is a \<open>double\<close> field; in these thresholds it is given by the number it stands for, its
  arithmetic is read as arithmetic on the reals, and a conversion of a \<open>double\<close> to an
  integer type is the floor of a non-negative value.
\<close>

definition init_hash_mem_limit :: "Config \<Rightarrow> int" where
  "init_hash_mem_limit cfg =
     (if hashagg_mem_overflow cfg then SIZE_MAX
      else if work_mem cfg * 1024 > HASH_PARTITION_MEM cfg * 2
           then work_mem cfg * 1024 - HASH_PARTITION_MEM cfg
      else work_mem cfg * 1024)"

definition init_hash_ngroups_limit :: "Config \<Rightarrow> int \<Rightarrow> real \<Rightarrow> int" where
  "init_hash_ngroups_limit cfg hash_mem_limit hashentrysize =
     (if hashagg_mem_overflow cfg then LONG_MAX
      else if real_of_int hash_mem_limit > hashentrysize
           then \<lfloor>real_of_int hash_mem_limit / hashentrysize\<rfloor>
      else 1)"

text \<open>
  The test of \<open>lookup_hash_entry\<close> that decides, after an insertion, whether the hash
  table has reached a limit.
\<close>

definition hash_limit_reached :: "int \<Rightarrow> int \<Rightarrow> int \<Rightarrow> int \<Rightarrow> bool" where
  "hash_limit_reached mem_current ngroups_current mem_limit ngroups_limit =
     (ngroups_current > 0 \<and> (mem_current > mem_limit \<or> ngroups_current > ngroups_limit))"

text \<open>
  The assignment of an \<open>unsigned long\<close> to an \<open>int\<close> keeps the low 32 bits, read as
  two's complement.
\<close>

definition int_of_ulong :: "nat \<Rightarrow> int" where
  "int_of_ulong n = sint (word_of_nat n :: 32 word)"

text \<open>
  \<open>partition_limit = (work_mem * 1024L * 0.25) / BLCKSZ\<close>, converted to \<open>int\<close>. The
  dividend is an integer far below \<open>2 ^ 53\<close> and so exact as a \<open>double\<close>; with a
  block size that is a power of two, as the build requires, the quotient is exact as well,
  and it is written here as a quotient of reals.
\<close>

definition partition_limit :: "Config \<Rightarrow> int" where
  "partition_limit cfg =
     \<lfloor>(real_of_int (work_mem cfg * 1024) * 0.25) / real_of_int (BLCKSZ cfg)\<rfloor>"

text \<open>
  \<open>mem_needed = HASH_PARTITION_FACTOR * input_groups * hashentrysize\<close>: the number of
  groups is converted to a \<open>double\<close>, the two products are taken from left to right in
  \<open>double\<close> arithmetic, and the result is converted to \<open>Size\<close>. The estimate
  \<open>1 + (mem_needed / (work_mem * 1024L))\<close> is computed in unsigned long arithmetic.
\<close>

definition mem_needed :: "nat \<Rightarrow> double \<Rightarrow> nat" where
  "mem_needed input_groups hashentrysize =
     double_to_Size
       (double_mult (double_mult HASH_PARTITION_FACTOR (double_of_uint64 input_groups))
          hashentrysize)"

definition partition_estimate :: "Config \<Rightarrow> nat \<Rightarrow> double \<Rightarrow> nat" where
  "partition_estimate cfg input_groups hashentrysize =
     1 + mem_needed input_groups hashentrysize div nat (work_mem cfg * 1024)"

definition hash_choose_num_spill_partitions :: "Config \<Rightarrow> nat \<Rightarrow> double \<Rightarrow> int" where
  "hash_choose_num_spill_partitions cfg input_groups hashentrysize =
     (let npartitions = int_of_ulong (partition_estimate cfg input_groups hashentrysize);
          npartitions = (if npartitions > partition_limit cfg then partition_limit cfg
                         else npartitions);
          npartitions = (if npartitions < HASH_MIN_PARTITIONS then HASH_MIN_PARTITIONS
                         else npartitions);
          npartitions = (if npartitions > HASH_MAX_PARTITIONS then HASH_MAX_PARTITIONS
                         else npartitions)
      in npartitions)"

text \<open>
  Modelled from the spec: \<open>my_log2\<close> is defined in utils/dynahash.c, which is not part of
  these sources. The spec rounds the partition count up to a power of two and takes its
  logarithm: \<open>my_log2 num\<close> is the least \<open>i\<close> with \<open>num \<le> 2 ^ i\<close>, found by counting up.
\<close>

function my_log2_loop :: "nat \<Rightarrow> nat \<Rightarrow> nat" where
  "my_log2_loop i num = (if 2 ^ i < num then my_log2_loop (Suc i) num else i)"
  by pat_completeness auto
termination
  by (relation "measure (\<lambda>(i, num). num - 2 ^ i)") (auto simp: diff_less_mono2)

definition my_log2 :: "int \<Rightarrow> int" where
  "my_log2 num = int (my_log2_loop 0 (nat num))"

text \<open>
  Modelled from the spec: the logical tape set library (utils/logtape.c) is not part of
  these sources. A tape set is a sequence of append-only byte streams addressed by tape
  number; a tape has a read position, \<open>Read\<close> returns the bytes it could read (at most
  the number asked for), \<open>Extend\<close> appends tapes and keeps the old numbering. Tape sets
  are shared between a spill and the batches made from it, so they live in a store and
  are named by their index there.
\<close>

type_synonym byte = "8 word"

record LogicalTape =
  tape_data :: "byte list"
  tape_pos :: nat

type_synonym LogicalTapeSet = "LogicalTape list"
type_synonym TapeStore = "LogicalTapeSet list"

definition empty_tape :: LogicalTape where
  "empty_tape = \<lparr>tape_data = [], tape_pos = 0\<rparr>"

definition LogicalTapeSetCreate :: "TapeStore \<Rightarrow> nat \<Rightarrow> nat \<times> TapeStore" where
  "LogicalTapeSetCreate store ntapes = (length store, store @ [replicate ntapes empty_tape])"

definition LogicalTapeSetExtend :: "TapeStore \<Rightarrow> nat \<Rightarrow> nat \<Rightarrow> TapeStore" where
  "LogicalTapeSetExtend store lts nAdditional =
     store[lts := (store ! lts) @ replicate nAdditional empty_tape]"

definition LogicalTapeGetNTapes :: "TapeStore \<Rightarrow> nat \<Rightarrow> nat" where
  "LogicalTapeGetNTapes store lts = length (store ! lts)"

definition LogicalTapeWrite :: "TapeStore \<Rightarrow> nat \<Rightarrow> nat \<Rightarrow> byte list \<Rightarrow> TapeStore" where
  "LogicalTapeWrite store lts tapenum bytes =
     store[lts := (store ! lts)[tapenum :=
        (store ! lts ! tapenum)\<lparr>tape_data := tape_data (store ! lts ! tapenum) @ bytes\<rparr>]]"

definition LogicalTapeRewindForRead :: "TapeStore \<Rightarrow> nat \<Rightarrow> nat \<Rightarrow> TapeStore" where
  "LogicalTapeRewindForRead store lts tapenum =
     store[lts := (store ! lts)[tapenum := (store ! lts ! tapenum)\<lparr>tape_pos := 0\<rparr>]]"

definition LogicalTapeRead :: "TapeStore \<Rightarrow> nat \<Rightarrow> nat \<Rightarrow> nat \<Rightarrow> byte list \<times> TapeStore" where
  "LogicalTapeRead store lts tapenum sz =
     (let t = store ! lts ! tapenum;
          bytes = take sz (drop (tape_pos t) (tape_data t))
      in (bytes,
          store[lts := (store ! lts)[tapenum := t\<lparr>tape_pos := tape_pos t + length bytes\<rparr>]]))"

text \<open>
  A \<open>uint32\<close> in memory, in the byte order of the host (little-endian here; the writer
  and the reader run on the same host).
\<close>

definition u32_to_bytes :: "32 word \<Rightarrow> byte list" where
  "u32_to_bytes w = [ucast w, ucast (drop_bit 8 w), ucast (drop_bit 16 w), ucast (drop_bit 24 w)]"

definition u32_of_bytes :: "byte list \<Rightarrow> 32 word" where
  "u32_of_bytes bs =
     (ucast (bs ! 0) OR push_bit 8 (ucast (bs ! 1)) OR push_bit 16 (ucast (bs ! 2))
      OR push_bit 24 (ucast (bs ! 3)))"

text \<open>
  A minimal tuple in memory: the length field \<open>t_len\<close> first, then the rest of the tuple.
  \<open>t_len\<close> counts all the bytes of the tuple, its own four included.
\<close>

record MinimalTuple =
  t_len :: "32 word"
  t_rest :: "byte list"

definition tuple_image :: "MinimalTuple \<Rightarrow> byte list" where
  "tuple_image tuple = u32_to_bytes (t_len tuple) @ t_rest tuple"

definition tuple_wf :: "MinimalTuple \<Rightarrow> bool" where
  "tuple_wf tuple = (4 \<le> unat (t_len tuple) \<and> length (t_rest tuple) = unat (t_len tuple) - 4)"

text \<open>\<open>HashAggSpill\<close> and \<open>HashAggBatch\<close>. A null pointer is \<open>None\<close>.\<close>

record HashAggSpill =
  n_partitions :: int
  partition_bits :: int
  partitions :: "nat list option"
  ntuples :: "nat list option"
  spill_lts :: "nat option"

record HashAggBatch =
  input_tape :: nat
  input_bits :: int
  input_tuples :: nat
  setno :: nat
  batch_spill :: HashAggSpill
  batch_lts :: "nat option"

definition empty_spill :: HashAggSpill where
  "empty_spill = \<lparr>n_partitions = 0, partition_bits = 0, partitions = None, ntuples = None,
                  spill_lts = None\<rparr>"

text \<open>
  \<open>hash_spill_init\<close>. The number of bits is the logarithm of the chosen partition count,
  cut down so that the bits of this level and of the levels above stay within the 32 bits
  of the hash.
\<close>

definition spill_partition_bits :: "Config \<Rightarrow> int \<Rightarrow> nat \<Rightarrow> double \<Rightarrow> int" where
  "spill_partition_bits cfg in_bits input_groups hashentrysize =
     (let npartitions = hash_choose_num_spill_partitions cfg input_groups hashentrysize;
          pbits = my_log2 npartitions
      in if pbits + in_bits \<ge> 32 then 32 - in_bits else pbits)"

definition hash_spill_init ::
  "Config \<Rightarrow> TapeStore \<Rightarrow> HashAggSpill \<Rightarrow> int \<Rightarrow> nat \<Rightarrow> double \<Rightarrow> HashAggSpill \<times> TapeStore" where
  "hash_spill_init cfg store spill in_bits input_groups hashentrysize =
     (let pbits = spill_partition_bits cfg in_bits input_groups hashentrysize;
          npartitions = (2 :: int) ^ nat pbits
      in case spill_lts spill of
           None \<Rightarrow>
             (let (lts, store') = LogicalTapeSetCreate store (nat npartitions)
              in (spill\<lparr>partition_bits := pbits,
                        n_partitions := npartitions,
                        partitions := Some [0..<nat npartitions],
                        ntuples := Some (replicate (nat npartitions) 0),
                        spill_lts := Some lts\<rparr>, store'))
         | Some lts \<Rightarrow>
             (let old_npartitions = LogicalTapeGetNTapes store lts;
                  bits = my_log2 npartitions;
                  n = (2 :: int) ^ nat bits
              in (spill\<lparr>partition_bits := bits,
                        n_partitions := n,
                        partitions := Some [old_npartitions..<old_npartitions + nat n],
                        ntuples := Some (replicate (nat n) 0)\<rparr>,
                  LogicalTapeSetExtend store lts (nat n))))"

text \<open>
  \<open>hash_spill_tuple\<close>: the partition of a tuple is read off the hash bits that follow
  the \<open>input_bits\<close> bits used by the levels above. The hash and then the tuple's
  \<open>t_len\<close> bytes go to the partition's tape; the result is the number of bytes written.
\<close>

definition spill_partition :: "int \<Rightarrow> int \<Rightarrow> 32 word \<Rightarrow> nat" where
  "spill_partition pbits in_bits hash =
     (if pbits = 0 then 0
      else unat (drop_bit (nat (32 - pbits)) (push_bit (nat in_bits) hash)))"

definition hash_spill_tuple ::
  "TapeStore \<Rightarrow> HashAggSpill \<Rightarrow> int \<Rightarrow> MinimalTuple \<Rightarrow> 32 word \<Rightarrow>
   HashAggSpill \<times> TapeStore \<times> nat" where
  "hash_spill_tuple store spill in_bits tuple hash =
     (let partition = spill_partition (partition_bits spill) in_bits hash;
          counts = the (ntuples spill);
          tape = the (partitions spill) ! partition;
          lts = the (spill_lts spill);
          spill' = spill\<lparr>ntuples := Some (counts[partition := Suc (counts ! partition)])\<rparr>;
          store1 = LogicalTapeWrite store lts tape (u32_to_bytes hash);
          store2 = LogicalTapeWrite store1 lts tape
                     (take (unat (t_len tuple)) (tuple_image tuple))
      in (spill', store2, 4 + unat (t_len tuple)))"

text \<open>
  \<open>hash_read_spilled\<close>: nothing left on the tape gives a null tuple; a short read of the
  hash, of the length or of the data is an error. The number of data bytes asked for is
  \<open>t_len - sizeof(uint32)\<close>, computed in \<open>size_t\<close>.
\<close>

datatype spill_error = ShortHash | ShortLength | ShortData

definition size_t_minus :: "nat \<Rightarrow> nat \<Rightarrow> nat" where
  "size_t_minus a b = (a + 2 ^ 64 - b) mod 2 ^ 64"

definition hash_read_spilled ::
  "TapeStore \<Rightarrow> nat \<Rightarrow> nat \<Rightarrow> (spill_error + (32 word \<times> MinimalTuple) option) \<times> TapeStore" where
  "hash_read_spilled store lts tapenum =
     (let (hbytes, store1) = LogicalTapeRead store lts tapenum 4
      in if length hbytes = 0 then (Inr None, store1)
         else if length hbytes \<noteq> 4 then (Inl ShortHash, store1)
         else
           (let hash = u32_of_bytes hbytes;
                (lbytes, store2) = LogicalTapeRead store1 lts tapenum 4
            in if length lbytes \<noteq> 4 then (Inl ShortLength, store2)
               else
                 (let len = u32_of_bytes lbytes;
                      want = size_t_minus (unat len) 4;
                      (dbytes, store3) = LogicalTapeRead store2 lts tapenum want
                  in if length dbytes \<noteq> want then (Inl ShortData, store3)
                     else (Inr (Some (hash, \<lparr>t_len = len, t_rest = dbytes\<rparr>)), store3))))"

text \<open>
  \<open>hash_batch_new\<close> and \<open>hash_spill_finish\<close>: every partition of a finished spill
  becomes a batch; the batch remembers how many hash bits have been used up to and
  including this level.
\<close>

definition hash_batch_new :: "nat \<Rightarrow> nat \<Rightarrow> nat \<Rightarrow> nat \<Rightarrow> int \<Rightarrow> HashAggBatch" where
  "hash_batch_new lts tapenum set_no tuples bits =
     \<lparr>input_tape = tapenum, input_bits = bits, input_tuples = tuples, setno = set_no,
      batch_spill = empty_spill\<lparr>spill_lts := Some lts\<rparr>, batch_lts = Some lts\<rparr>"

record SpillWork =
  tape_store :: TapeStore
  hash_batches :: "HashAggBatch list"
  hash_batches_used :: nat
  lts_list :: "nat list"

fun spill_finish_loop ::
  "HashAggSpill \<Rightarrow> nat \<Rightarrow> int \<Rightarrow> nat list \<Rightarrow> SpillWork \<Rightarrow> SpillWork" where
  "spill_finish_loop spill set_no bits [] w = w"
| "spill_finish_loop spill set_no bits (i # is) w =
     (let lts = the (spill_lts spill);
          tape = the (partitions spill) ! i;
          new_batch = hash_batch_new lts tape set_no (the (ntuples spill) ! i)
                        (partition_bits spill + bits)
      in spill_finish_loop spill set_no bits is
           (w\<lparr>tape_store := LogicalTapeRewindForRead (tape_store w) lts tape,
              hash_batches := hash_batches w @ [new_batch],
              hash_batches_used := Suc (hash_batches_used w)\<rparr>))"

definition hash_spill_finish ::
  "SpillWork \<Rightarrow> HashAggSpill \<Rightarrow> nat \<Rightarrow> int \<Rightarrow> SpillWork \<times> HashAggSpill" where
  "hash_spill_finish w spill set_no bits =
     (if n_partitions spill = 0 then (w, spill)
      else
        (let w1 = spill_finish_loop spill set_no bits [0..<nat (n_partitions spill)] w;
             lts = the (spill_lts spill);
             w2 = (if lts \<in> set (lts_list w1) then w1
                   else w1\<lparr>lts_list := lts_list w1 @ [lts]\<rparr>)
         in (w2, spill\<lparr>ntuples := None, partitions := None\<rparr>)))"

text \<open>
  The spill partition sets and the batches that a run creates, as the callers use the
  functions above. \<open>lookup_hash_entries\<close> initializes a zeroed \<open>HashAggSpill\<close> with no
  hash bits used; tuples are spilled into a set with the input bits that it was made for;
  \<open>hash_spill_finish\<close> is called with the same input bits and turns the partitions into
  batches; and \<open>agg_refill_hash_table\<close> initializes the spill of a batch at the input
  bits of the batch, for the number of tuples in its input file. The second argument of
  \<open>spill_created\<close> is the number of input bits of the set.
\<close>

inductive spill_created :: "Config \<Rightarrow> HashAggSpill \<Rightarrow> int \<Rightarrow> bool"
  and batch_created :: "Config \<Rightarrow> HashAggBatch \<Rightarrow> bool"
  for cfg :: Config where
  first_spill:
    "spill_created cfg
       (fst (hash_spill_init cfg store empty_spill 0 input_groups hashentrysize)) 0"
| tuple_spilled:
    "spill_created cfg spill bits \<Longrightarrow>
     spill_created cfg (fst (hash_spill_tuple store spill bits tuple hash)) bits"
| spill_finished:
    "spill_created cfg spill bits \<Longrightarrow>
     batch \<in> set (drop (length (hash_batches w))
                     (hash_batches (fst (hash_spill_finish w spill set_no bits)))) \<Longrightarrow>
     batch_created cfg batch"
| respill:
    "batch_created cfg batch \<Longrightarrow>
     spill_created cfg
       (fst (hash_spill_init cfg store (batch_spill batch) (input_bits batch)
               (input_tuples batch) hashentrysize))
       (input_bits batch)"

text \<open>
  The window of the hash that a level reads: the number formed by the \<open>pbits\<close> bits
  that follow the \<open>in_bits\<close> highest ones.
\<close>

definition hash_window :: "int \<Rightarrow> int \<Rightarrow> 32 word \<Rightarrow> nat" where
  "hash_window pbits in_bits hash =
     (unat hash div 2 ^ nat (32 - in_bits - pbits)) mod 2 ^ nat pbits"

text \<open>The tape \<open>tapenum\<close> of the tape set \<open>lts\<close>, and that both exist.\<close>

definition tape_at :: "TapeStore \<Rightarrow> nat \<Rightarrow> nat \<Rightarrow> LogicalTape" where
  "tape_at store lts tapenum = store ! lts ! tapenum"

definition tape_ok :: "TapeStore \<Rightarrow> nat \<Rightarrow> nat \<Rightarrow> bool" where
  "tape_ok store lts tapenum = (lts < length store \<and> tapenum < length (store ! lts))"

declare my_log2_loop.simps [simp del]

definition spill_cfg :: Config where
  "spill_cfg = \<lparr>BLCKSZ = 8192, work_mem = 4096, hashagg_mem_overflow = False\<rparr>"

definition small_cfg :: Config where
  "small_cfg = \<lparr>BLCKSZ = 8192, work_mem = 64, hashagg_mem_overflow = False\<rparr>"

definition overflow_cfg :: Config where
  "overflow_cfg = \<lparr>BLCKSZ = 8192, work_mem = 4096, hashagg_mem_overflow = True\<rparr>"

definition sample_spill :: HashAggSpill where
  "sample_spill = \<lparr>n_partitions = 4, partition_bits = 2, partitions = Some [0, 1, 2, 3],
                   ntuples = Some [0, 0, 0, 0], spill_lts = Some 0\<rparr>"

definition sample_store :: TapeStore where
  "sample_store = [replicate 4 empty_tape]"

definition sample_tuple :: MinimalTuple where
  "sample_tuple = \<lparr>t_len = 6, t_rest = [17, 42]\<rparr>"

text \<open>
  The estimate of the number of partitions as the spec writes it, in exact arithmetic: one
  more than the memory needed for the groups, \<open>HASH_PARTITION_FACTOR\<close> times their
  number times the entry size, divided by \<open>work_mem\<close> in bytes and rounded down.
\<close>

definition spec_partition_estimate :: "Config \<Rightarrow> nat \<Rightarrow> double \<Rightarrow> int" where
  "spec_partition_estimate cfg input_groups hashentrysize =
     1 + \<lfloor>real_of_double HASH_PARTITION_FACTOR * real input_groups *
            real_of_double hashentrysize
           / real_of_int (work_mem cfg * 1024)\<rfloor>"

text \<open>
  An entry size of 64 bytes, and the \<open>double\<close> nearest to 4194304 / 3, with which the
  product for 8 groups lies half way between two doubles.
\<close>

definition entry_size_64 :: double where
  "entry_size_64 = Double 64 0"

definition entry_size_third :: double where
  "entry_size_third = Double 6004799503160661 (- 32)"


text \<open>
  A first spill with a million estimated groups; a tuple spilled into it; the batches made
  from it, of which the one for partition 24 holds the tuple; and the spill of that batch.
\<close>

definition sample_hash :: "32 word" where
  "sample_hash = 0xC3F00001"

definition first_spill_set :: HashAggSpill where
  "first_spill_set = fst (hash_spill_init spill_cfg [] empty_spill 0 1000000 entry_size_64)"

definition first_spill_store :: TapeStore where
  "first_spill_store = snd (hash_spill_init spill_cfg [] empty_spill 0 1000000 entry_size_64)"

definition spilled_set :: HashAggSpill where
  "spilled_set = fst (hash_spill_tuple first_spill_store first_spill_set 0 sample_tuple sample_hash)"

definition spilled_store :: TapeStore where
  "spilled_store =
     fst (snd (hash_spill_tuple first_spill_store first_spill_set 0 sample_tuple sample_hash))"

definition sample_work :: SpillWork where
  "sample_work = \<lparr>tape_store = spilled_store, hash_batches = [], hash_batches_used = 0,
                  lts_list = []\<rparr>"

definition sample_batch :: HashAggBatch where
  "sample_batch = hash_batches (fst (hash_spill_finish sample_work spilled_set 0 0)) ! 24"

definition respill_set :: HashAggSpill where
  "respill_set =
     fst (hash_spill_init spill_cfg spilled_store (batch_spill sample_batch)
            (input_bits sample_batch) (input_tuples sample_batch) entry_size_64)"

section \<open>Hash tables: lookup_hash_entry\<close>

text \<open>
  The key of a hash table is the tuple of grouping columns that \<open>prepare_hash_slot\<close>
  has copied into the hash slot. An entry holds the representative tuple and, in
  \<open>additional\<close>, the array of per-group states (null until the caller allocates it).
\<close>

type_synonym GroupKey = "NullableDatum list"

record TupleHashEntryData =
  firstTuple :: GroupKey
  additional :: "AggStatePerGroupData list option"

type_synonym TupleHashTable = "GroupKey \<rightharpoonup> TupleHashEntryData"

text \<open>
  Modelled from the spec: \<open>LookupTupleHashEntryHash\<close> is defined in execGrouping.c,
  which is not part of these sources. It finds the entry of the key; when there is none it
  creates one and reports it as new if the caller passed a place for the \<open>isnew\<close> flag,
  and returns null if the caller passed none. The precomputed hash only locates the bucket.
  The result is the table, the entry found or made, and the \<open>isnew\<close> flag.
\<close>

definition LookupTupleHashEntryHash ::
  "TupleHashTable \<Rightarrow> GroupKey \<Rightarrow> bool \<Rightarrow> 32 word \<Rightarrow>
   TupleHashTable \<times> TupleHashEntryData option \<times> bool" where
  "LookupTupleHashEntryHash hashtable key_slot want_new hash =
     (case hashtable key_slot of
        Some entry \<Rightarrow> (hashtable, Some entry, False)
      | None \<Rightarrow>
          if want_new
          then (hashtable(key_slot \<mapsto> \<lparr>firstTuple = key_slot, additional = None\<rparr>),
                Some \<lparr>firstTuple = key_slot, additional = None\<rparr>, True)
          else (hashtable, None, False))"

datatype AggStrategy = AGG_PLAIN | AGG_SORTED | AGG_HASHED | AGG_MIXED

text \<open>
  Modelled from the spec: \<open>ExecBuildAggTrans\<close> belongs to the expression evaluator,
  which is not part of these sources. The transition expression it builds is known here by
  the phase and the flags it was built with.
\<close>

record AggTransExpr =
  for_phase :: nat
  dosort :: bool
  dohash :: bool
  spilled :: bool

definition ExecBuildAggTrans :: "nat \<Rightarrow> bool \<Rightarrow> bool \<Rightarrow> bool \<Rightarrow> AggTransExpr" where
  "ExecBuildAggTrans phase do_sort do_hash spill =
     \<lparr>for_phase = phase, dosort = do_sort, dohash = do_hash, spilled = spill\<rparr>"

text \<open>
  The fields of \<open>AggState\<close> that hashing reads and writes. \<open>agg_pertrans\<close> is the
  array \<open>pertrans\<close>, \<open>hashtables\<close> holds \<open>perhash[i].hashtable\<close> and \<open>evaltrans\<close>
  holds \<open>phases[i].evaltrans\<close>. Byte and
  entry counts are integers; they stay far from the bounds of \<open>Size\<close> and \<open>long\<close>.
\<close>

record HashAggState =
  aggstrategy :: AggStrategy
  num_hashes :: nat
  current_set :: nat
  agg_pertrans :: "AggStatePerTransData list"
  hashtables :: "TupleHashTable list"
  evaltrans :: "AggTransExpr option list"
  hash_mem_limit :: int
  hash_ngroups_limit :: int
  hash_mem_current :: int
  hash_mem_peak :: int
  hash_ngroups_current :: int
  hash_no_new_groups :: bool
  hash_spilled :: bool
  hash_spills :: "HashAggSpill list option"

definition select_current_set_hash :: "HashAggState \<Rightarrow> nat \<Rightarrow> HashAggState" where
  "select_current_set_hash aggstate set_no = aggstate\<lparr>current_set := set_no\<rparr>"

definition hash_recompile_expressions :: "HashAggState \<Rightarrow> HashAggState" where
  "hash_recompile_expressions aggstate =
     (let phase = (if aggstrategy aggstate = AGG_HASHED then 0 else 1)
      in aggstate\<lparr>evaltrans := (evaltrans aggstate)
           [phase := Some (ExecBuildAggTrans phase
                             (if aggstrategy aggstate = AGG_MIXED then True else False)
                             True
                             (hash_spilled aggstate))]\<rparr>)"

text \<open>
  \<open>build_hash_table\<close>: every hash table is destroyed; the table of the grouping set
  asked for (all of them when \<open>set_no\<close> is negative) is built anew, empty. The counters
  and the flag start afresh. \<open>mem_allocated\<close> stands for \<open>MemoryContextMemAllocated\<close> on
  the hash context: the bytes allocated for the given tables.
\<close>

definition build_hash_table ::
  "(TupleHashTable list \<Rightarrow> int) \<Rightarrow> HashAggState \<Rightarrow> int \<Rightarrow> HashAggState" where
  "build_hash_table mem_allocated aggstate set_no =
     (let tables = replicate (num_hashes aggstate) Map.empty
      in aggstate\<lparr>hashtables := tables,
                   hash_mem_current := mem_allocated tables,
                   hash_ngroups_current := 0,
                   hash_no_new_groups := False\<rparr>)"

text \<open>
  \<open>lookup_hash_entry\<close>, for the key in the hash slot of the current grouping set. The
  result is the array of per-group states of the entry, or null when the group is not in
  the table and must not be created.
\<close>

definition enter_spill_mode :: "HashAggState \<Rightarrow> HashAggState" where
  "enter_spill_mode aggstate =
     (let st = aggstate\<lparr>hash_no_new_groups := True\<rparr>
      in if \<not> hash_spilled st
         then hash_recompile_expressions
                (st\<lparr>hash_spilled := True,
                    hash_spills := Some (replicate (num_hashes st) empty_spill)\<rparr>)
         else st)"

definition lookup_hash_entry ::
  "(TupleHashTable list \<Rightarrow> int) \<Rightarrow> HashAggState \<Rightarrow> GroupKey \<Rightarrow> 32 word \<Rightarrow>
   AggStatePerGroupData list option \<times> HashAggState" where
  "lookup_hash_entry mem_allocated aggstate hashslot hash =
     (let setno = current_set aggstate;
          (table, entry, isnew) =
             LookupTupleHashEntryHash (hashtables aggstate ! setno) hashslot
               (\<not> hash_no_new_groups aggstate) hash
      in case entry of
           None \<Rightarrow> (None, aggstate)
         | Some e \<Rightarrow>
             if isnew then
               (let st = aggstate\<lparr>hashtables := (hashtables aggstate)[setno := table],
                                   hash_ngroups_current := hash_ngroups_current aggstate + 1\<rparr>;
                    st = st\<lparr>hash_mem_current := mem_allocated (hashtables st)\<rparr>;
                    st = (if hash_mem_current st > hash_mem_peak st
                          then st\<lparr>hash_mem_peak := hash_mem_current st\<rparr> else st);
                    st = (if hash_limit_reached (hash_mem_current st) (hash_ngroups_current st)
                               (hash_mem_limit st) (hash_ngroups_limit st)
                          then enter_spill_mode st else st);
                    pergroup = map initialize_aggregate (agg_pertrans st);
                    st = st\<lparr>hashtables := (hashtables st)
                            [setno := table(hashslot \<mapsto> e\<lparr>additional := Some pergroup\<rparr>)]\<rparr>
                in (Some pergroup, st))
             else (additional e, aggstate))"

text \<open>
  A sequence of lookups, each in a grouping set of its own choice, as
  \<open>lookup_hash_entries\<close> and \<open>agg_refill_hash_table\<close> issue them. The results are kept
  in order.
\<close>

fun lookup_sequence ::
  "(TupleHashTable list \<Rightarrow> int) \<Rightarrow> HashAggState \<Rightarrow> (nat \<times> GroupKey \<times> 32 word) list \<Rightarrow>
   AggStatePerGroupData list option list \<times> HashAggState" where
  "lookup_sequence mem_allocated aggstate [] = ([], aggstate)"
| "lookup_sequence mem_allocated aggstate ((set_no, hashslot, hash) # rest) =
     (let (pergroup, st) = lookup_hash_entry mem_allocated
                             (select_current_set_hash aggstate set_no) hashslot hash;
          (pergroups, st') = lookup_sequence mem_allocated st rest
      in (pergroup # pergroups, st'))"

text \<open>The table with a new entry for the key, as it is when the memory is measured.\<close>

definition tables_with_new_entry :: "HashAggState \<Rightarrow> GroupKey \<Rightarrow> TupleHashTable list" where
  "tables_with_new_entry aggstate hashslot =
     (hashtables aggstate)
       [current_set aggstate :=
          (hashtables aggstate ! current_set aggstate)
            (hashslot \<mapsto> \<lparr>firstTuple = hashslot, additional = None\<rparr>)]"


subsection \<open>A sample hash aggregation\<close>

text \<open>
  One hashed grouping set, one \<open>max\<close> aggregate, room for a single group, and a hash
  context whose allocation does not grow with the first entries.
\<close>

definition key1 :: GroupKey where "key1 = [datum 1]"
definition key2 :: GroupKey where "key2 = [datum 2]"
definition key3 :: GroupKey where "key3 = [datum 3]"

definition entry_bytes :: "TupleHashTable list \<Rightarrow> int" where
  "entry_bytes tables = 0"

definition hash_state0 :: HashAggState where
  "hash_state0 =
     \<lparr>aggstrategy = AGG_HASHED, num_hashes = 1, current_set = 0,
      agg_pertrans = [max_pertrans], hashtables = [Map.empty],
      evaltrans = [Some (ExecBuildAggTrans 0 False True False)],
      hash_mem_limit = 1000, hash_ngroups_limit = 1, hash_mem_current = 0, hash_mem_peak = 0,
      hash_ngroups_current = 0, hash_no_new_groups = False, hash_spilled = False,
      hash_spills = None\<rparr>"

definition hash_state1 :: HashAggState where
  "hash_state1 = snd (lookup_hash_entry entry_bytes hash_state0 key1 11)"

definition hash_state2 :: HashAggState where
  "hash_state2 = snd (lookup_sequence entry_bytes hash_state0 [(0, key1, 11), (0, key2, 12)])"


section \<open>Initialization: shared aggregates and shared transition states\<close>

text \<open>
  An \<open>Aggref\<close> with the fields that \<open>find_compatible_peragg\<close> compares. An expression
  is a number here and \<open>equal()\<close> on expression lists is equality of the lists of
  numbers. \<open>aggargs\<close> is the field \<open>args\<close>.
\<close>

type_synonym Oid = nat

definition InvalidOid :: Oid where
  "InvalidOid = 0"

text \<open>
  Modelled from the spec: \<open>INTERNALOID\<close> (catalog/pg_type.h) and the \<open>aggfinalmodify\<close>
  codes (catalog/pg_aggregate.h) are not part of these sources; the spec speaks of the
  INTERNAL transition type and of a final function that is read-write.
\<close>

definition INTERNALOID :: Oid where
  "INTERNALOID = 2281"

datatype AggFinalModify = AGGMODIFY_READ_ONLY | AGGMODIFY_SHAREABLE | AGGMODIFY_READ_WRITE

record Aggref =
  aggfnoid :: Oid
  aggtype :: Oid
  aggcollid :: Oid
  inputcollid :: Oid
  aggtranstype :: Oid
  aggdirectargs :: "nat list"
  aggargs :: "nat list"
  aggorder :: "nat list"
  aggdistinct :: "nat list"
  aggfilter :: "nat option"
  aggstar :: bool
  aggvariadic :: bool
  aggkind :: char

text \<open>The row of \<open>pg_aggregate\<close>; a null \<open>agginitval\<close> is \<open>None\<close>.\<close>

record Form_pg_aggregate =
  aggtransfn :: Oid
  aggfinalfn :: Oid
  aggcombinefn :: Oid
  aggserialfn :: Oid
  aggdeserialfn :: Oid
  aggfinalmodify :: AggFinalModify
  agginitval :: "Datum option"

text \<open>
  What initialization asks of the system catalogs and of other modules: the
  \<open>pg_aggregate\<close> row of an aggregate, whether the user may execute the aggregate, the
  owner of the aggregate (its \<open>pg_proc\<close> row), whether that owner may execute a function,
  whether a function is strict, whether the aggregate's first aggregated input type exists
  and is binary-coercible to the transition type, whether the \<open>Aggref\<close> contains a
  volatile function, and the conversion of the initial value's text to a datum.
\<close>

record Catalog =
  pg_aggregate :: "Oid \<rightharpoonup> Form_pg_aggregate"
  aggregate_acl_ok :: "Oid \<Rightarrow> bool"
  pg_proc_owner :: "Oid \<rightharpoonup> Oid"
  owner_acl_ok :: "Oid \<Rightarrow> Oid \<Rightarrow> bool"
  proc_strict :: "Oid \<Rightarrow> bool"
  input_coercible :: "Aggref \<Rightarrow> Oid \<Rightarrow> bool"
  contain_volatile_functions :: "Aggref \<Rightarrow> bool"
  GetAggInitVal :: "Datum \<Rightarrow> Oid \<Rightarrow> Datum"

text \<open>The four tests \<open>DO_AGGSPLIT_...\<close> on the node's \<open>aggsplit\<close> mode.\<close>

record AggSplit =
  DO_AGGSPLIT_COMBINE :: bool
  DO_AGGSPLIT_SKIPFINAL :: bool
  DO_AGGSPLIT_SERIALIZE :: bool
  DO_AGGSPLIT_DESERIALIZE :: bool

text \<open>
  The fields of \<open>AggStatePerAggData\<close> and \<open>AggStatePerTransData\<close> that the sharing
  logic of \<open>ExecInitAgg\<close> writes and compares. The \<open>pt_\<close> fields are \<open>aggref\<close>,
  \<open>aggtranstype\<close>, \<open>initValue\<close> and \<open>initValueIsNull\<close> of the per-trans struct.
\<close>

record PerAggInit =
  aggref :: Aggref
  transno :: nat
  finalfn_oid :: Oid
  shareable :: bool

record PerTransInit =
  pt_aggref :: Aggref
  aggshared :: bool
  transfn_oid :: Oid
  serialfn_oid :: Oid
  deserialfn_oid :: Oid
  pt_aggtranstype :: Oid
  pt_initValue :: Datum
  pt_initValueIsNull :: bool

datatype init_error =
    CacheLookupFailedAggregate Oid
  | CacheLookupFailedFunction Oid
  | PermissionDenied Oid
  | CombinefnNotSet
  | SerialfuncNotProvided
  | DeserialfuncNotProvided
  | StrictCombineInternal
  | IncompatibleInputType Oid

text \<open>
  \<open>find_compatible_peragg\<close>: the loop over the aggregates seen so far. An aggregate
  with other inputs is skipped; an identical one ends the search with its number and an
  empty list; one with the same inputs adds its transition state to the list if its final
  function permits sharing.
\<close>

definition same_inputs :: "Aggref \<Rightarrow> Aggref \<Rightarrow> bool" where
  "same_inputs newagg existingRef =
     (\<not> (inputcollid newagg \<noteq> inputcollid existingRef \<or>
         aggtranstype newagg \<noteq> aggtranstype existingRef \<or>
         aggstar newagg \<noteq> aggstar existingRef \<or>
         aggvariadic newagg \<noteq> aggvariadic existingRef \<or>
         aggkind newagg \<noteq> aggkind existingRef \<or>
         aggargs newagg \<noteq> aggargs existingRef \<or>
         aggorder newagg \<noteq> aggorder existingRef \<or>
         aggdistinct newagg \<noteq> aggdistinct existingRef \<or>
         aggfilter newagg \<noteq> aggfilter existingRef))"

definition same_function :: "Aggref \<Rightarrow> Aggref \<Rightarrow> bool" where
  "same_function newagg existingRef =
     (aggfnoid newagg = aggfnoid existingRef \<and>
      aggtype newagg = aggtype existingRef \<and>
      aggcollid newagg = aggcollid existingRef \<and>
      aggdirectargs newagg = aggdirectargs existingRef)"

fun peragg_loop :: "Aggref \<Rightarrow> PerAggInit list \<Rightarrow> nat \<Rightarrow> nat list \<Rightarrow> nat option \<times> nat list" where
  "peragg_loop newagg [] aggno same_input_transnos = (None, same_input_transnos)"
| "peragg_loop newagg (peragg # rest) aggno same_input_transnos =
     (if \<not> same_inputs newagg (aggref peragg)
      then peragg_loop newagg rest (Suc aggno) same_input_transnos
      else if same_function newagg (aggref peragg) then (Some aggno, [])
      else if shareable peragg
           then peragg_loop newagg rest (Suc aggno) (same_input_transnos @ [transno peragg])
      else peragg_loop newagg rest (Suc aggno) same_input_transnos)"

definition find_compatible_peragg ::
  "Catalog \<Rightarrow> Aggref \<Rightarrow> PerAggInit list \<Rightarrow> nat option \<times> nat list" where
  "find_compatible_peragg cat newagg peraggs =
     (if contain_volatile_functions cat newagg then (None, [])
      else peragg_loop newagg peraggs 0 [])"

text \<open>
  \<open>find_compatible_pertrans\<close>: the first transition state of the list with the same
  transition function, transition type, serialization and deserialization functions and
  initial value. \<open>datumIsEqual\<close> is equality of the values.
\<close>

fun find_compatible_pertrans ::
  "PerTransInit list \<Rightarrow> bool \<Rightarrow> Oid \<Rightarrow> Oid \<Rightarrow> Oid \<Rightarrow> Oid \<Rightarrow> Datum \<Rightarrow> bool \<Rightarrow> nat list \<Rightarrow>
   nat option" where
  "find_compatible_pertrans pertranss share trfn trtype serfn deserfn initVal initValIsNull [] =
     None"
| "find_compatible_pertrans pertranss share trfn trtype serfn deserfn initVal initValIsNull
     (t # transnos) =
     (if \<not> share then None
      else
        (let pt = pertranss ! t
         in if trfn \<noteq> transfn_oid pt \<or> trtype \<noteq> pt_aggtranstype pt
            then find_compatible_pertrans pertranss share trfn trtype serfn deserfn initVal
                   initValIsNull transnos
            else if serfn \<noteq> serialfn_oid pt \<or> deserfn \<noteq> deserialfn_oid pt
            then find_compatible_pertrans pertranss share trfn trtype serfn deserfn initVal
                   initValIsNull transnos
            else if initValIsNull \<and> pt_initValueIsNull pt then Some t
            else if \<not> initValIsNull \<and> \<not> pt_initValueIsNull pt \<and> initVal = pt_initValue pt
            then Some t
            else find_compatible_pertrans pertranss share trfn trtype serfn deserfn initVal
                   initValIsNull transnos))"

text \<open>
  \<open>build_pertrans_for_aggref\<close>, as far as sharing is concerned: the identity of the new
  transition state, and the two errors the function can raise.
\<close>

definition build_pertrans_for_aggref ::
  "Catalog \<Rightarrow> AggSplit \<Rightarrow> Aggref \<Rightarrow> Oid \<Rightarrow> Oid \<Rightarrow> Oid \<Rightarrow> Oid \<Rightarrow> Datum \<Rightarrow> bool \<Rightarrow>
   init_error + PerTransInit" where
  "build_pertrans_for_aggref cat split agg trfn trtype serfn deserfn initVal initValIsNull =
     (let pt = \<lparr>pt_aggref = agg, aggshared = False, transfn_oid = trfn, serialfn_oid = serfn,
                deserialfn_oid = deserfn, pt_aggtranstype = trtype, pt_initValue = initVal,
                pt_initValueIsNull = initValIsNull\<rparr>
      in if DO_AGGSPLIT_COMBINE split
         then (if proc_strict cat trfn \<and> trtype = INTERNALOID then Inl StrictCombineInternal
               else Inr pt)
         else (if proc_strict cat trfn \<and> initValIsNull \<and> \<not> input_coercible cat agg trtype
               then Inl (IncompatibleInputType (aggfnoid agg))
               else Inr pt))"

text \<open>
  The state of the loop of \<open>ExecInitAgg\<close> over the aggregate references: the per-agg
  and per-trans structs in use (\<open>aggno\<close> and \<open>transno\<close> are their numbers less one) and
  the \<open>aggno\<close> given to each reference so far.
\<close>

record InitState =
  peraggs :: "PerAggInit list"
  pertranss :: "PerTransInit list"
  aggnos :: "nat list"

text \<open>The permission checks on the component functions, in the order of the source.\<close>

definition check_component_acl ::
  "Catalog \<Rightarrow> Oid \<Rightarrow> Oid \<Rightarrow> Oid \<Rightarrow> Oid \<Rightarrow> Oid \<Rightarrow> init_error option" where
  "check_component_acl cat aggOwner trfn finfn serfn deserfn =
     (if \<not> owner_acl_ok cat trfn aggOwner then Some (PermissionDenied trfn)
      else if finfn \<noteq> InvalidOid \<and> \<not> owner_acl_ok cat finfn aggOwner
           then Some (PermissionDenied finfn)
      else if serfn \<noteq> InvalidOid \<and> \<not> owner_acl_ok cat serfn aggOwner
           then Some (PermissionDenied serfn)
      else if deserfn \<noteq> InvalidOid \<and> \<not> owner_acl_ok cat deserfn aggOwner
           then Some (PermissionDenied deserfn)
      else None)"

text \<open>
  One turn of the loop, for an aggregate reference that is not identical to an earlier
  one. First the catalog row is read and the locals \<open>transfn_oid\<close>, \<open>finalfn_oid\<close>,
  \<open>shareable\<close>, \<open>serialfn_oid\<close>, \<open>deserialfn_oid\<close>, \<open>initValue\<close> and
  \<open>initValueIsNull\<close> are set, with the permission checks on the way.
\<close>

record AggFunctions =
  l_transfn_oid :: Oid
  l_finalfn_oid :: Oid
  l_shareable :: bool
  l_serialfn_oid :: Oid
  l_deserialfn_oid :: Oid
  l_initValue :: Datum
  l_initValueIsNull :: bool

definition lookup_aggregate_functions ::
  "Catalog \<Rightarrow> AggSplit \<Rightarrow> Aggref \<Rightarrow> init_error + AggFunctions" where
  "lookup_aggregate_functions cat split agg =
     (case pg_aggregate cat (aggfnoid agg) of
        None \<Rightarrow> Inl (CacheLookupFailedAggregate (aggfnoid agg))
      | Some aggform \<Rightarrow>
          if \<not> aggregate_acl_ok cat (aggfnoid agg) then Inl (PermissionDenied (aggfnoid agg))
          else if DO_AGGSPLIT_COMBINE split \<and> aggcombinefn aggform = InvalidOid
          then Inl CombinefnNotSet
          else
            (let trtype = aggtranstype agg;
                 trfn = (if DO_AGGSPLIT_COMBINE split then aggcombinefn aggform
                         else aggtransfn aggform);
                 finfn = (if DO_AGGSPLIT_SKIPFINAL split then InvalidOid
                          else aggfinalfn aggform);
                 share = (aggfinalmodify aggform \<noteq> AGGMODIFY_READ_WRITE \<or> finfn = InvalidOid);
                 want_ser = (trtype = INTERNALOID \<and> DO_AGGSPLIT_SERIALIZE split);
                 want_deser = (trtype = INTERNALOID \<and> DO_AGGSPLIT_DESERIALIZE split)
             in if want_ser \<and> aggserialfn aggform = InvalidOid then Inl SerialfuncNotProvided
                else if want_deser \<and> aggdeserialfn aggform = InvalidOid
                then Inl DeserialfuncNotProvided
                else
                  (let serfn = (if want_ser then aggserialfn aggform else InvalidOid);
                       deserfn = (if want_deser then aggdeserialfn aggform else InvalidOid)
                   in case pg_proc_owner cat (aggfnoid agg) of
                        None \<Rightarrow> Inl (CacheLookupFailedFunction (aggfnoid agg))
                      | Some aggOwner \<Rightarrow>
                          (case check_component_acl cat aggOwner trfn finfn serfn deserfn of
                             Some err \<Rightarrow> Inl err
                           | None \<Rightarrow>
                               Inr \<lparr>l_transfn_oid = trfn, l_finalfn_oid = finfn,
                                    l_shareable = share, l_serialfn_oid = serfn,
                                    l_deserialfn_oid = deserfn,
                                    l_initValue =
                                      (case agginitval aggform of
                                         None \<Rightarrow> 0
                                       | Some textInitVal \<Rightarrow>
                                           GetAggInitVal cat textInitVal trtype),
                                    l_initValueIsNull = (agginitval aggform = None)\<rparr>))))"

text \<open>
  Then the transition state: an existing one from the list of candidates if
  \<open>find_compatible_pertrans\<close> finds one, which is then marked as shared, or a new one.
\<close>

definition bind_pertrans ::
  "Catalog \<Rightarrow> AggSplit \<Rightarrow> InitState \<Rightarrow> Aggref \<Rightarrow> nat list \<Rightarrow> AggFunctions \<Rightarrow>
   init_error + InitState" where
  "bind_pertrans cat split st agg same_input_transnos fns =
     (let trtype = aggtranstype agg;
          aggno = length (peraggs st)
      in case find_compatible_pertrans (pertranss st) (l_shareable fns) (l_transfn_oid fns)
                trtype (l_serialfn_oid fns) (l_deserialfn_oid fns) (l_initValue fns)
                (l_initValueIsNull fns) same_input_transnos of
           Some existing_transno \<Rightarrow>
             Inr \<lparr>peraggs = peraggs st @
                    [\<lparr>aggref = agg, transno = existing_transno,
                      finalfn_oid = l_finalfn_oid fns, shareable = l_shareable fns\<rparr>],
                  pertranss = (pertranss st)
                    [existing_transno :=
                       (pertranss st ! existing_transno)\<lparr>aggshared := True\<rparr>],
                  aggnos = aggnos st @ [aggno]\<rparr>
         | None \<Rightarrow>
             (case build_pertrans_for_aggref cat split agg (l_transfn_oid fns) trtype
                     (l_serialfn_oid fns) (l_deserialfn_oid fns) (l_initValue fns)
                     (l_initValueIsNull fns) of
                Inl err \<Rightarrow> Inl err
              | Inr pt \<Rightarrow>
                  Inr \<lparr>peraggs = peraggs st @
                         [\<lparr>aggref = agg, transno = length (pertranss st),
                           finalfn_oid = l_finalfn_oid fns, shareable = l_shareable fns\<rparr>],
                       pertranss = pertranss st @ [pt],
                       aggnos = aggnos st @ [aggno]\<rparr>))"

definition init_new_peragg ::
  "Catalog \<Rightarrow> AggSplit \<Rightarrow> InitState \<Rightarrow> Aggref \<Rightarrow> nat list \<Rightarrow> init_error + InitState" where
  "init_new_peragg cat split st agg same_input_transnos =
     (case lookup_aggregate_functions cat split agg of
        Inl err \<Rightarrow> Inl err
      | Inr fns \<Rightarrow> bind_pertrans cat split st agg same_input_transnos fns)"

definition init_aggref :: "Catalog \<Rightarrow> AggSplit \<Rightarrow> InitState \<Rightarrow> Aggref \<Rightarrow> init_error + InitState" where
  "init_aggref cat split st agg =
     (case find_compatible_peragg cat agg (peraggs st) of
        (Some existing_aggno, same_input_transnos) \<Rightarrow>
          Inr (st\<lparr>aggnos := aggnos st @ [existing_aggno]\<rparr>)
      | (None, same_input_transnos) \<Rightarrow> init_new_peragg cat split st agg same_input_transnos)"

fun init_aggrefs ::
  "Catalog \<Rightarrow> AggSplit \<Rightarrow> InitState \<Rightarrow> Aggref list \<Rightarrow> init_error + InitState" where
  "init_aggrefs cat split st [] = Inr st"
| "init_aggrefs cat split st (agg # aggs) =
     (case init_aggref cat split st agg of
        Inl err \<Rightarrow> Inl err
      | Inr st' \<Rightarrow> init_aggrefs cat split st' aggs)"

definition init_state0 :: InitState where
  "init_state0 = \<lparr>peraggs = [], pertranss = [], aggnos = []\<rparr>"

text \<open>
  The comparison that \<open>find_compatible_pertrans\<close> makes with one transition state, and
  the number of per-agg structs bound to a transition state.
\<close>

definition pertrans_matches ::
  "PerTransInit \<Rightarrow> Oid \<Rightarrow> Oid \<Rightarrow> Oid \<Rightarrow> Oid \<Rightarrow> Datum \<Rightarrow> bool \<Rightarrow> bool" where
  "pertrans_matches pt trfn trtype serfn deserfn initVal initValIsNull =
     (trfn = transfn_oid pt \<and> trtype = pt_aggtranstype pt \<and>
      serfn = serialfn_oid pt \<and> deserfn = deserialfn_oid pt \<and>
      (initValIsNull \<and> pt_initValueIsNull pt \<or>
       \<not> initValIsNull \<and> \<not> pt_initValueIsNull pt \<and> initVal = pt_initValue pt))"

text \<open>
  What holds between the turns of the loop: every per-agg struct names a transition state
  that exists, and two per-agg structs that name the same one both permit sharing.
\<close>

definition init_inv :: "InitState \<Rightarrow> bool" where
  "init_inv st =
     ((\<forall>i < length (peraggs st). transno (peraggs st ! i) < length (pertranss st)) \<and>
      (\<forall>i < length (peraggs st). \<forall>j < length (peraggs st).
         i \<noteq> j \<and> transno (peraggs st ! i) = transno (peraggs st ! j) \<longrightarrow>
         shareable (peraggs st ! i) \<and> shareable (peraggs st ! j)))"

subsection \<open>A sample catalog\<close>

text \<open>
  Three aggregates over the same transition function: 10 without a final function, 11
  with a read-only final function, 12 with a read-write final function.
\<close>

definition sample_catalog :: Catalog where
  "sample_catalog =
     \<lparr>pg_aggregate =
        [10 \<mapsto> \<lparr>aggtransfn = 100, aggfinalfn = 0, aggcombinefn = 0, aggserialfn = 0,
                 aggdeserialfn = 0, aggfinalmodify = AGGMODIFY_READ_ONLY, agginitval = None\<rparr>,
         11 \<mapsto> \<lparr>aggtransfn = 100, aggfinalfn = 201, aggcombinefn = 0, aggserialfn = 0,
                 aggdeserialfn = 0, aggfinalmodify = AGGMODIFY_READ_ONLY, agginitval = None\<rparr>,
         12 \<mapsto> \<lparr>aggtransfn = 100, aggfinalfn = 202, aggcombinefn = 0, aggserialfn = 0,
                 aggdeserialfn = 0, aggfinalmodify = AGGMODIFY_READ_WRITE, agginitval = None\<rparr>],
      aggregate_acl_ok = (\<lambda>_. True),
      pg_proc_owner = (\<lambda>_. Some 1),
      owner_acl_ok = (\<lambda>_ _. True),
      proc_strict = (\<lambda>_. False),
      input_coercible = (\<lambda>_ _. True),
      contain_volatile_functions = (\<lambda>_. False),
      GetAggInitVal = (\<lambda>v _. v)\<rparr>"

definition no_split :: AggSplit where
  "no_split = \<lparr>DO_AGGSPLIT_COMBINE = False, DO_AGGSPLIT_SKIPFINAL = False,
               DO_AGGSPLIT_SERIALIZE = False, DO_AGGSPLIT_DESERIALIZE = False\<rparr>"

definition sample_aggref :: "Oid \<Rightarrow> Aggref" where
  "sample_aggref fnoid =
     \<lparr>aggfnoid = fnoid, aggtype = 20, aggcollid = 0, inputcollid = 0, aggtranstype = 20,
      aggdirectargs = [], aggargs = [1], aggorder = [], aggdistinct = [], aggfilter = None,
      aggstar = False, aggvariadic = False, aggkind = CHR ''n''\<rparr>"

definition sample_aggrefs :: "Aggref list" where
  "sample_aggrefs = [sample_aggref 10, sample_aggref 11, sample_aggref 12, sample_aggref 10,
                     sample_aggref 12]"


text \<open>
  Every per-agg struct has the \<open>shareable\<close> flag that the catalog row of its aggregate
  and its final function give it.
\<close>

definition shareable_ok :: "Catalog \<Rightarrow> InitState \<Rightarrow> bool" where
  "shareable_ok cat st =
     (\<forall>p \<in> set (peraggs st). \<exists>aggform. pg_aggregate cat (aggfnoid (aggref p)) = Some aggform \<and>
        shareable p = (aggfinalmodify aggform \<noteq> AGGMODIFY_READ_WRITE \<or>
                       finalfn_oid p = InvalidOid))"

text \<open>
  The sample catalog at work: the state after the first reference, the locals for a
  reference to aggregate 11, the state after all the sample references, and a reference to
  aggregate 10 over another argument.
\<close>

definition sample_init1 :: InitState where
  "sample_init1 =
     \<lparr>peraggs =
        [\<lparr>aggref = sample_aggref 10, transno = 0, finalfn_oid = 0, shareable = True\<rparr>],
      pertranss =
        [\<lparr>pt_aggref = sample_aggref 10, aggshared = False, transfn_oid = 100, serialfn_oid = 0,
          deserialfn_oid = 0, pt_aggtranstype = 20, pt_initValue = 0,
          pt_initValueIsNull = True\<rparr>],
      aggnos = [0]\<rparr>"

definition sample_fns :: AggFunctions where
  "sample_fns =
     \<lparr>l_transfn_oid = 100, l_finalfn_oid = 201, l_shareable = True, l_serialfn_oid = 0,
      l_deserialfn_oid = 0, l_initValue = 0, l_initValueIsNull = True\<rparr>"

definition sample_init :: InitState where
  "sample_init =
     \<lparr>peraggs =
        [\<lparr>aggref = sample_aggref 10, transno = 0, finalfn_oid = 0, shareable = True\<rparr>,
         \<lparr>aggref = sample_aggref 11, transno = 0, finalfn_oid = 201, shareable = True\<rparr>,
         \<lparr>aggref = sample_aggref 12, transno = 1, finalfn_oid = 202, shareable = False\<rparr>],
      pertranss =
        [\<lparr>pt_aggref = sample_aggref 10, aggshared = True, transfn_oid = 100, serialfn_oid = 0,
          deserialfn_oid = 0, pt_aggtranstype = 20, pt_initValue = 0,
          pt_initValueIsNull = True\<rparr>,
         \<lparr>pt_aggref = sample_aggref 12, aggshared = False, transfn_oid = 100, serialfn_oid = 0,
          deserialfn_oid = 0, pt_aggtranstype = 20, pt_initValue = 0,
          pt_initValueIsNull = True\<rparr>],
      aggnos = [0, 1, 2, 0, 2]\<rparr>"



section \<open>Plain and sorted aggregation: agg_retrieve_direct\<close>

text \<open>
  An input row is a list of columns. A phase has its strategy, the lengths of its grouping
  sets (most specific first), the number of grouping columns of its \<open>Agg\<close> node, the
  equality expressions \<open>eqfunctions[i]\<close> that compare the first \<open>i + 1\<close> grouping columns
  of the outer and the inner tuple, and the order in which its \<open>Sort\<close> node wants the
  input, given by the rank of a row in that order. Phase 0 is the hashed phase.
\<close>

type_synonym Row = "NullableDatum list"

record AggStatePerPhaseData =
  phase_aggstrategy :: AggStrategy
  numsets :: nat
  gset_lengths :: "nat list"
  numCols :: nat
  eqfunctions :: "nat \<Rightarrow> Row \<Rightarrow> Row \<Rightarrow> bool"
  sort_rank :: "Row \<Rightarrow> nat"

text \<open>
  The transition states of a group are kept as the list of the input rows that have been
  advanced into them since they were initialized: every aggregate value is a function of
  that list. A projected row is known by its phase, its grouping set, the representative
  tuple (none when no input row was seen) and the rows of its group. The nulling of
  columns by \<open>prepare_projection_slot\<close> is not part of the model.
\<close>

record OutRow =
  out_phase :: nat
  out_set :: nat
  out_first :: "Row option"
  out_group :: "Row list"

text \<open>
  The fields of \<open>AggState\<close> that \<open>agg_retrieve_direct\<close> uses. \<open>outer_input\<close> is what
  the child plan has yet to return; a tuplesort is the list of its rows; a tuple slot is
  \<open>None\<close> when it is empty. \<open>tmp_outertuple\<close> and \<open>out_outertuple\<close> are the outer
  tuples of \<open>tmpcontext\<close> and of the node's expression context. In a mixed aggregation
  the hash tables are filled along the way during phase 1; they are not part of this state.
\<close>

record DirectAggState =
  node_aggstrategy :: AggStrategy
  numphases :: nat
  phases :: "AggStatePerPhaseData list"
  current_phase :: nat
  agg_done :: bool
  input_done :: bool
  projected_set :: int
  grp_firstTuple :: "Row option"
  outer_input :: "Row list"
  sort_in :: "Row list option"
  sort_out :: "Row list option"
  firstSlot :: "Row option"
  tmp_outertuple :: "Row option"
  out_outertuple :: "Row option"
  pergroups :: "Row list list"
  table_filled :: bool

text \<open>\<open>initialize_phase\<close>: the tuplesorts change hands.\<close>

definition initialize_phase :: "DirectAggState \<Rightarrow> nat \<Rightarrow> DirectAggState" where
  "initialize_phase aggstate newphase =
     (let st = aggstate\<lparr>sort_in := None\<rparr>;
          st = (if newphase \<le> 1 then st\<lparr>sort_out := None\<rparr>
                else st\<lparr>sort_in := map_option (sort_key (sort_rank (phases st ! newphase))) (sort_out st),
                        sort_out := None\<rparr>);
          st = (if newphase > 0 \<and> newphase + 1 < numphases st then st\<lparr>sort_out := Some []\<rparr>
                else st)
      in st\<lparr>current_phase := newphase\<rparr>)"

text \<open>
  \<open>fetch_input_tuple\<close>: the next row of the sorter that is being read, or of the child
  plan; a row that was found is also put into the sorter for the next phase.
\<close>

definition fetch_input_tuple :: "DirectAggState \<Rightarrow> Row option \<times> DirectAggState" where
  "fetch_input_tuple aggstate =
     (let (slot, st) =
            (case sort_in aggstate of
               Some rows \<Rightarrow>
                 (case rows of
                    [] \<Rightarrow> (None, aggstate)
                  | r # rs \<Rightarrow> (Some r, aggstate\<lparr>sort_in := Some rs\<rparr>))
             | None \<Rightarrow>
                 (case outer_input aggstate of
                    [] \<Rightarrow> (None, aggstate)
                  | r # rs \<Rightarrow> (Some r, aggstate\<lparr>outer_input := rs\<rparr>)))
      in case (slot, sort_out st) of
           (Some r, Some tuples) \<Rightarrow> (slot, st\<lparr>sort_out := Some (tuples @ [r])\<rparr>)
         | _ \<Rightarrow> (slot, st))"

definition pending_input :: "DirectAggState \<Rightarrow> Row list" where
  "pending_input aggstate =
     (case sort_in aggstate of Some rows \<Rightarrow> rows | None \<Rightarrow> outer_input aggstate)"

text \<open>
  \<open>initialize_aggregates\<close> for the first \<open>numReset\<close> grouping sets, and
  \<open>advance_aggregates\<close> for the row in \<open>tmpcontext\<close>, which advances the states of all
  the grouping sets of the phase.
\<close>

definition phase_sets :: "DirectAggState \<Rightarrow> nat" where
  "phase_sets aggstate = max (numsets (phases aggstate ! current_phase aggstate)) 1"

fun reset_sets :: "nat \<Rightarrow> Row list list \<Rightarrow> Row list list" where
  "reset_sets 0 groups = groups"
| "reset_sets (Suc n) [] = []"
| "reset_sets (Suc n) (g # groups) = [] # reset_sets n groups"

definition initialize_aggregates :: "DirectAggState \<Rightarrow> nat \<Rightarrow> DirectAggState" where
  "initialize_aggregates aggstate numReset =
     (let n = (if numReset = 0 then phase_sets aggstate else numReset)
      in aggstate\<lparr>pergroups := reset_sets n (pergroups aggstate)\<rparr>)"

fun advance_sets :: "nat \<Rightarrow> Row \<Rightarrow> Row list list \<Rightarrow> Row list list" where
  "advance_sets 0 r groups = groups"
| "advance_sets (Suc n) r [] = []"
| "advance_sets (Suc n) r (g # groups) = (g @ [r]) # advance_sets n r groups"

definition advance_aggregates :: "DirectAggState \<Rightarrow> DirectAggState" where
  "advance_aggregates aggstate =
     (case tmp_outertuple aggstate of
        None \<Rightarrow> aggstate
      | Some r \<Rightarrow>
          aggstate\<lparr>pergroups := advance_sets (phase_sets aggstate) r (pergroups aggstate)\<rparr>)"

text \<open>
  The locals of \<open>agg_retrieve_direct\<close> that are set on entry; \<open>node\<close> is known by the
  number of the phase whose \<open>Agg\<close> node it is. A change of phase inside the loop renews
  \<open>numGroupingSets\<close> and \<open>node\<close>, not \<open>hasGroupingSets\<close>.
\<close>

record DirectLocals =
  hasGroupingSets :: bool
  numGroupingSets :: nat
  node :: nat

definition entry_locals :: "DirectAggState \<Rightarrow> DirectLocals" where
  "entry_locals aggstate =
     \<lparr>hasGroupingSets = (numsets (phases aggstate ! current_phase aggstate) > 0),
      numGroupingSets = phase_sets aggstate,
      node = current_phase aggstate\<rparr>"

definition grouping :: "DirectLocals \<Rightarrow> DirectAggState \<Rightarrow> bool" where
  "grouping l aggstate = (phase_aggstrategy (phases aggstate ! node l) \<noteq> AGG_PLAIN)"

text \<open>
  The inner loop: advance the row at hand, fetch the next one, and stop when the input
  is exhausted or, if we are grouping, when the next row differs from the first row of
  the group in the grouping columns; that row is kept for the next group.
\<close>

function group_loop :: "DirectLocals \<Rightarrow> DirectAggState \<Rightarrow> DirectAggState" where
  "group_loop l aggstate =
     (let st = advance_aggregates aggstate;
          (outerslot, st) = fetch_input_tuple st
      in case outerslot of
           None \<Rightarrow>
             (if hasGroupingSets l then st\<lparr>input_done := True\<rparr> else st\<lparr>agg_done := True\<rparr>)
         | Some r \<Rightarrow>
             (let st = st\<lparr>tmp_outertuple := Some r\<rparr>
              in if grouping l st \<and>
                    \<not> eqfunctions (phases st ! current_phase st)
                        (numCols (phases st ! node l) - 1) r (the (firstSlot st))
                 then st\<lparr>grp_firstTuple := Some r\<rparr>
                 else group_loop l st))"
  by pat_completeness auto
termination
  apply (relation "measure (\<lambda>(l, st). length (pending_input st))")
   apply simp
  apply (auto simp: fetch_input_tuple_def pending_input_def Let_def advance_aggregates_def
              split: option.splits list.splits prod.splits)
  done

declare group_loop.simps [simp del]

text \<open>
  What a call can come to: a projected row, no more rows (the function returns null), or,
  in a mixed aggregation after the last sorted phase, the handing over to
  \<open>agg_retrieve_hash_table\<close>. One turn of the outer loop either returns or goes round
  again.
\<close>

datatype DirectOutcome = ResultRow OutRow | NoMoreRows | RetrieveHashTable

datatype DirectStep =
    Return DirectOutcome DirectAggState
  | Continue DirectLocals DirectAggState

text \<open>
  The first part of a turn: the number of grouping sets to reset and, when the input is
  complete and the last grouping set has been projected, the change of phase or the end.
\<close>

definition phase_boundary ::
  "DirectLocals \<Rightarrow> DirectAggState \<Rightarrow> DirectStep + (DirectLocals \<times> DirectAggState \<times> nat)" where
  "phase_boundary l aggstate =
     (let numReset =
            (if projected_set aggstate \<ge> 0 \<and> projected_set aggstate < int (numGroupingSets l)
             then nat (projected_set aggstate + 1) else numGroupingSets l)
      in if input_done aggstate \<and> projected_set aggstate \<ge> int (numGroupingSets l) - 1
         then
           (if current_phase aggstate + 1 < numphases aggstate
            then
              (let st = initialize_phase aggstate (current_phase aggstate + 1);
                   st = st\<lparr>input_done := False, projected_set := - 1\<rparr>;
                   l' = l\<lparr>numGroupingSets := phase_sets st, node := current_phase st\<rparr>
               in Inr (l', st, numGroupingSets l'))
            else if node_aggstrategy aggstate = AGG_MIXED
            then Inl (Return RetrieveHashTable
                        ((initialize_phase aggstate 0)\<lparr>table_filled := True\<rparr>))
            else Inl (Return NoMoreRows (aggstate\<lparr>agg_done := True\<rparr>)))
         else Inr (l, aggstate, numReset))"

text \<open>
  The skipping of the grouping sets that have grouping columns, when there was no input
  at all: \<open>while (gset_lengths[projected_set] > 0) { projected_set += 1; if
  (projected_set >= numGroupingSets) break; }\<close>. A read past the end of the array
  is not modelled; the loop stops there.
\<close>

function skip_nonempty_sets :: "nat list \<Rightarrow> nat \<Rightarrow> nat \<Rightarrow> nat" where
  "skip_nonempty_sets lengths nsets pset =
     (if pset < length lengths \<and> lengths ! pset > 0
      then (if Suc pset \<ge> nsets then Suc pset else skip_nonempty_sets lengths nsets (Suc pset))
      else pset)"
  by pat_completeness auto
termination
  by (relation "measure (\<lambda>(lengths, nsets, pset). length lengths - pset)") auto

declare skip_nonempty_sets.simps [simp del]

text \<open>
  The second part: the next grouping set of the group just projected, or a new group.
  For a new group the first row is fetched unless it is at hand from the group before; with
  no input at all the empty grouping sets remain to be projected (or nothing, and the loop
  starts again), and without grouping sets the aggregation is done, with one row to
  project if it is a plain aggregation.
\<close>

definition next_set_size :: "DirectLocals \<Rightarrow> DirectAggState \<Rightarrow> nat" where
  "next_set_size l aggstate =
     (if projected_set aggstate \<ge> 0 \<and> projected_set aggstate < int (numGroupingSets l) - 1
      then gset_lengths (phases aggstate ! current_phase aggstate)
             ! nat (projected_set aggstate + 1)
      else 0)"

definition at_subgroup_boundary :: "DirectLocals \<Rightarrow> DirectAggState \<Rightarrow> bool" where
  "at_subgroup_boundary l aggstate =
     (input_done aggstate \<or>
      (grouping l aggstate \<and>
       projected_set aggstate \<noteq> - 1 \<and>
       projected_set aggstate < int (numGroupingSets l) - 1 \<and>
       next_set_size l aggstate > 0 \<and>
       \<not> eqfunctions (phases aggstate ! current_phase aggstate) (next_set_size l aggstate - 1)
           (the (tmp_outertuple aggstate)) (the (out_outertuple aggstate))))"

definition new_group_rows :: "DirectLocals \<Rightarrow> DirectAggState \<Rightarrow> nat \<Rightarrow> DirectAggState" where
  "new_group_rows l aggstate numReset =
     (let st = initialize_aggregates aggstate numReset;
          st = (case grp_firstTuple st of
                  None \<Rightarrow> st
                | Some first \<Rightarrow>
                    group_loop l (st\<lparr>firstSlot := Some first, grp_firstTuple := None,
                                     tmp_outertuple := Some first\<rparr>))
      in st\<lparr>out_outertuple := firstSlot st\<rparr>)"

definition next_group ::
  "DirectLocals \<Rightarrow> DirectAggState \<Rightarrow> nat \<Rightarrow> DirectStep + DirectAggState" where
  "next_group l aggstate numReset =
     (if at_subgroup_boundary l aggstate
      then Inr (aggstate\<lparr>projected_set := projected_set aggstate + 1\<rparr>)
      else
        (let st = aggstate\<lparr>projected_set := 0\<rparr>
         in case grp_firstTuple st of
              Some first \<Rightarrow> Inr (new_group_rows l st numReset)
            | None \<Rightarrow>
                (let (outerslot, st) = fetch_input_tuple st
                 in case outerslot of
                      Some r \<Rightarrow> Inr (new_group_rows l (st\<lparr>grp_firstTuple := Some r\<rparr>) numReset)
                    | None \<Rightarrow>
                        if hasGroupingSets l
                        then
                          (let pset = skip_nonempty_sets
                                        (gset_lengths (phases st ! current_phase st))
                                        (numGroupingSets l) 0;
                               st = st\<lparr>input_done := True, projected_set := int pset\<rparr>
                           in if pset \<ge> numGroupingSets l then Inl (Continue l st)
                              else Inr (new_group_rows l st numReset))
                        else
                          (let st = st\<lparr>agg_done := True\<rparr>
                           in if grouping l st then Inl (Return NoMoreRows st)
                              else Inr (new_group_rows l st numReset)))))"

text \<open>
  The last part: the aggregates of the current grouping set are finalized and the row is
  projected if it passes the qual (the HAVING clause); if not, the loop goes round again.
\<close>

definition project_group ::
  "(OutRow \<Rightarrow> bool) \<Rightarrow> DirectLocals \<Rightarrow> DirectAggState \<Rightarrow> DirectStep" where
  "project_group qual l aggstate =
     (let currentSet = nat (projected_set aggstate);
          row = \<lparr>out_phase = current_phase aggstate, out_set = currentSet,
                 out_first = out_outertuple aggstate,
                 out_group = pergroups aggstate ! currentSet\<rparr>
      in if qual row then Return (ResultRow row) aggstate else Continue l aggstate)"

definition direct_turn ::
  "(OutRow \<Rightarrow> bool) \<Rightarrow> DirectLocals \<Rightarrow> DirectAggState \<Rightarrow> DirectStep" where
  "direct_turn qual l aggstate =
     (case phase_boundary l aggstate of
        Inl step \<Rightarrow> step
      | Inr (l', st, numReset) \<Rightarrow>
          (case next_group l' st numReset of
             Inl step \<Rightarrow> step
           | Inr st' \<Rightarrow> project_group qual l' st'))"

text \<open>
  The outer loop \<open>while (!aggstate->agg_done)\<close>, with a bound on the number of turns:
  \<open>None\<close> says that the bound was too small. \<open>agg_retrieve_direct\<close> is the loop with the
  locals of the entry.
\<close>

fun direct_loop ::
  "(OutRow \<Rightarrow> bool) \<Rightarrow> nat \<Rightarrow> DirectLocals \<Rightarrow> DirectAggState \<Rightarrow>
   (DirectOutcome \<times> DirectAggState) option" where
  "direct_loop qual 0 l aggstate = None"
| "direct_loop qual (Suc fuel) l aggstate =
     (if agg_done aggstate then Some (NoMoreRows, aggstate)
      else case direct_turn qual l aggstate of
             Return outcome st \<Rightarrow> Some (outcome, st)
           | Continue l' st \<Rightarrow> direct_loop qual fuel l' st)"

definition agg_retrieve_direct ::
  "(OutRow \<Rightarrow> bool) \<Rightarrow> nat \<Rightarrow> DirectAggState \<Rightarrow> (DirectOutcome \<times> DirectAggState) option" where
  "agg_retrieve_direct qual fuel aggstate = direct_loop qual fuel (entry_locals aggstate) aggstate"

text \<open>
  \<open>ExecAgg\<close> for a plain or sorted phase, called again and again until it returns no row:
  the rows returned, and how the last call ended. A call is not made once \<open>agg_done\<close> is
  set. Every call may take \<open>fuel\<close> turns and there may be \<open>calls\<close> calls.
\<close>

fun ExecAgg_rows ::
  "(OutRow \<Rightarrow> bool) \<Rightarrow> nat \<Rightarrow> nat \<Rightarrow> DirectAggState \<Rightarrow>
   (OutRow list \<times> DirectOutcome \<times> DirectAggState) option" where
  "ExecAgg_rows qual fuel 0 aggstate = None"
| "ExecAgg_rows qual fuel (Suc calls) aggstate =
     (if agg_done aggstate then Some ([], NoMoreRows, aggstate)
      else case agg_retrieve_direct qual fuel aggstate of
             None \<Rightarrow> None
           | Some (ResultRow row, st) \<Rightarrow>
               (case ExecAgg_rows qual fuel calls st of
                  None \<Rightarrow> None
                | Some (rows, outcome, st') \<Rightarrow> Some (row # rows, outcome, st'))
           | Some (outcome, st) \<Rightarrow> Some ([], outcome, st))"

text \<open>The state in which \<open>ExecInitAgg\<close> leaves a plain or sorted aggregation.\<close>

definition direct_init ::
  "AggStrategy \<Rightarrow> AggStatePerPhaseData list \<Rightarrow> Row list \<Rightarrow> nat \<Rightarrow> DirectAggState" where
  "direct_init strategy phase_list input maxsets =
     initialize_phase
       \<lparr>node_aggstrategy = strategy, numphases = length phase_list, phases = phase_list,
        current_phase = 1, agg_done = False, input_done = False, projected_set = - 1,
        grp_firstTuple = None, outer_input = input, sort_in = None, sort_out = None,
        firstSlot = None, tmp_outertuple = None, out_outertuple = None,
        pergroups = replicate (max maxsets 1) [], table_filled = False\<rparr> 1"



text \<open>
  The row that is projected from transition states that have seen no input, and what the
  empty-input rule expects of an aggregation over grouping sets: for every sorted phase in
  turn, one such row for each of its grouping sets without grouping columns, if the row
  passes the qual.
\<close>

definition initial_row :: "nat \<Rightarrow> nat \<Rightarrow> OutRow" where
  "initial_row p i = \<lparr>out_phase = p, out_set = i, out_first = None, out_group = []\<rparr>"

definition spec_empty_input_rows ::
  "(OutRow \<Rightarrow> bool) \<Rightarrow> AggStatePerPhaseData list \<Rightarrow> OutRow list" where
  "spec_empty_input_rows qual phase_list =
     concat (map (\<lambda>p. map (initial_row p)
                         (filter (\<lambda>i. gset_lengths (phase_list ! p) ! i = 0 \<and>
                                       qual (initial_row p i))
                                 [0..<numsets (phase_list ! p)]))
                 [1..<length phase_list])"

text \<open>
  A phase of an aggregation over grouping sets, as the planner makes it: it has grouping
  sets, as many as \<open>gset_lengths\<close> says and no more than there are transition states for,
  and they are listed from the most specific to the least.
\<close>

definition grouping_sets_phase :: "nat \<Rightarrow> AggStatePerPhaseData \<Rightarrow> bool" where
  "grouping_sets_phase maxsets ph =
     (numsets ph > 0 \<and> length (gset_lengths ph) = numsets ph \<and> numsets ph \<le> maxsets \<and>
      sorted (rev (gset_lengths ph)))"

definition sorted_phases_ok :: "nat \<Rightarrow> AggStatePerPhaseData list \<Rightarrow> bool" where
  "sorted_phases_ok maxsets phase_list =
     list_all (grouping_sets_phase maxsets) (tl phase_list)"

text \<open>How the last call ends, and a number of turns and of calls that is enough.\<close>

definition final_outcome :: "AggStrategy \<Rightarrow> DirectOutcome" where
  "final_outcome strategy = (if strategy = AGG_MIXED then RetrieveHashTable else NoMoreRows)"

definition direct_turn_bound :: "AggStatePerPhaseData list \<Rightarrow> nat" where
  "direct_turn_bound phase_list = Suc (sum_list (map (\<lambda>ph. numsets ph + 2) phase_list))"

text \<open>
  The states of a run over an empty input: nothing to fetch, no tuple at hand, all
  transition states initial. \<open>first_empty_set\<close> is where the skipping of the grouping sets
  with grouping columns stops; \<open>rows_left\<close> are the rows that such a state has yet to
  project and \<open>turns_left\<close> bounds the turns of the loop that it has yet to make.
\<close>

definition empty_run ::
  "AggStrategy \<Rightarrow> nat \<Rightarrow> AggStatePerPhaseData list \<Rightarrow> DirectAggState \<Rightarrow> bool" where
  "empty_run strategy maxsets phase_list aggstate =
     (node_aggstrategy aggstate = strategy \<and> phases aggstate = phase_list \<and>
      numphases aggstate = length phase_list \<and>
      1 \<le> current_phase aggstate \<and> current_phase aggstate < length phase_list \<and>
      \<not> agg_done aggstate \<and> grp_firstTuple aggstate = None \<and> outer_input aggstate = [] \<and>
      (sort_in aggstate = None \<or> sort_in aggstate = Some []) \<and>
      (sort_out aggstate = None \<or> sort_out aggstate = Some []) \<and>
      firstSlot aggstate = None \<and> out_outertuple aggstate = None \<and>
      pergroups aggstate = replicate (max maxsets 1) [] \<and>
      (if input_done aggstate then 0 \<le> projected_set aggstate
       else projected_set aggstate = - 1))"

definition first_empty_set :: "AggStatePerPhaseData \<Rightarrow> nat" where
  "first_empty_set ph = skip_nonempty_sets (gset_lengths ph) (max (numsets ph) 1) 0"

definition next_pos :: "DirectAggState \<Rightarrow> nat" where
  "next_pos aggstate =
     (if input_done aggstate then nat (projected_set aggstate + 1)
      else first_empty_set (phases aggstate ! current_phase aggstate))"

definition rows_of_phase ::
  "(OutRow \<Rightarrow> bool) \<Rightarrow> AggStatePerPhaseData list \<Rightarrow> nat \<Rightarrow> nat \<Rightarrow> OutRow list" where
  "rows_of_phase qual phase_list p a =
     map (initial_row p) (filter (\<lambda>i. qual (initial_row p i)) [a..<numsets (phase_list ! p)])"

definition rows_of_phases ::
  "(OutRow \<Rightarrow> bool) \<Rightarrow> AggStatePerPhaseData list \<Rightarrow> nat \<Rightarrow> OutRow list" where
  "rows_of_phases qual phase_list p =
     concat (map (\<lambda>q. rows_of_phase qual phase_list q (first_empty_set (phase_list ! q)))
                 [p..<length phase_list])"

definition rows_left :: "(OutRow \<Rightarrow> bool) \<Rightarrow> DirectAggState \<Rightarrow> OutRow list" where
  "rows_left qual aggstate =
     rows_of_phase qual (phases aggstate) (current_phase aggstate) (next_pos aggstate) @
     rows_of_phases qual (phases aggstate) (Suc (current_phase aggstate))"

definition turns_of_phases :: "AggStatePerPhaseData list \<Rightarrow> nat \<Rightarrow> nat" where
  "turns_of_phases phase_list p =
     sum_list (map (\<lambda>q. numsets (phase_list ! q) + 2) [p..<length phase_list])"

definition turns_left :: "DirectAggState \<Rightarrow> nat" where
  "turns_left aggstate =
     (if input_done aggstate then 0 else 1) +
     (numsets (phases aggstate ! current_phase aggstate) - next_pos aggstate) +
     turns_of_phases (phases aggstate) (Suc (current_phase aggstate))"

text \<open>
  A plain aggregation, a rollup over \<open>(a, b), (a), ()\<close> followed by a second rollup over
  \<open>(b), ()\<close>, and a qual that no row passes.
\<close>

definition prefix_eq :: "nat \<Rightarrow> Row \<Rightarrow> Row \<Rightarrow> bool" where
  "prefix_eq i r1 r2 = (take (Suc i) r1 = take (Suc i) r2)"

definition hash_phase :: AggStatePerPhaseData where
  "hash_phase = \<lparr>phase_aggstrategy = AGG_HASHED, numsets = 0, gset_lengths = [], numCols = 0,
                 eqfunctions = prefix_eq, sort_rank = (\<lambda>r. 0)\<rparr>"

definition plain_phase :: AggStatePerPhaseData where
  "plain_phase = \<lparr>phase_aggstrategy = AGG_PLAIN, numsets = 0, gset_lengths = [], numCols = 0,
                  eqfunctions = prefix_eq, sort_rank = (\<lambda>r. 0)\<rparr>"

definition rollup_phase :: AggStatePerPhaseData where
  "rollup_phase = \<lparr>phase_aggstrategy = AGG_SORTED, numsets = 3, gset_lengths = [2, 1, 0],
                   numCols = 2, eqfunctions = prefix_eq, sort_rank = (\<lambda>r. 0)\<rparr>"

definition second_rollup_phase :: AggStatePerPhaseData where
  "second_rollup_phase =
     \<lparr>phase_aggstrategy = AGG_SORTED, numsets = 2, gset_lengths = [1, 0], numCols = 1,
      eqfunctions = prefix_eq, sort_rank = (\<lambda>r. nd_value (r ! 1))\<rparr>"

definition no_row_passes :: "OutRow \<Rightarrow> bool" where
  "no_row_passes row = False"

definition every_row_passes :: "OutRow \<Rightarrow> bool" where
  "every_row_passes row = True"


section \<open>Properties of the transition state\<close>

lemma null_input_iff: "null_input a n \<longleftrightarrow> (\<exists>i. 1 \<le> i \<and> i \<le> n \<and> nd_isnull (a i))"
  by (auto simp: null_input_def list_ex_iff)

lemma load_args_other: "j \<le> i \<Longrightarrow> load_args a i vs j = a j"
  by (induction a i vs rule: load_args.induct) auto

lemma load_args_nth: "k < length vs \<Longrightarrow> load_args a i vs (Suc (i + k)) = vs ! k"
proof (induction vs arbitrary: a i k)
  case Nil
  then show ?case by simp
next
  case (Cons v vs)
  show ?case
  proof (cases k)
    case 0
    then show ?thesis by (simp add: load_args_other)
  next
    case (Suc k')
    with Cons.prems have "k' < length vs" by simp
    then have "load_args (a(Suc i := v)) (Suc i) vs (Suc (Suc i + k')) = vs ! k'"
      by (rule Cons.IH)
    with Suc show ?thesis by simp
  qed
qed

lemma null_input_load_args:
  assumes "list_ex nd_isnull (take n row)"
  shows "null_input (load_args a 0 (take n row)) n"
proof -
  from assms obtain k where k: "k < length (take n row)" "nd_isnull (take n row ! k)"
    by (auto simp: list_ex_iff in_set_conv_nth)
  then have "load_args a 0 (take n row) (Suc k) = take n row ! k"
    using load_args_nth [of k "take n row" a 0] by simp
  with k show ?thesis
    unfolding null_input_iff by (intro exI [of _ "Suc k"]) auto
qed

lemma advance_null_input:
  "fn_strict pertrans \<Longrightarrow> null_input (args env) (numTransInputs pertrans) \<Longrightarrow>
   advance_transition_function pertrans env = env"
  by (simp add: advance_transition_function_def Let_def)

lemma advance_row_null:
  "fn_strict pertrans \<Longrightarrow> list_ex nd_isnull (take (numTransInputs pertrans) row) \<Longrightarrow>
   advance_row pertrans env row =
     env\<lparr>args := load_args (args env) 0 (take (numTransInputs pertrans) row)\<rparr>"
  by (simp add: advance_row_def advance_null_input null_input_load_args)

lemma advance_rows_null:
  "fn_strict pertrans \<Longrightarrow> \<forall>row\<in>set rows. list_ex nd_isnull (take (numTransInputs pertrans) row) \<Longrightarrow>
   pergroupstate (advance_rows pertrans env rows) = pergroupstate env \<and>
   transfn_calls (advance_rows pertrans env rows) = transfn_calls env"
  unfolding advance_rows_def
  by (induction rows arbitrary: env) (simp_all add: advance_row_null)

text \<open>
  Claim C1. Let the transition function be strict. If one of the transition inputs
  (argument positions 1 to \<open>numTransInputs\<close>) is null, a call of
  \<open>advance_transition_function\<close> changes nothing: the state, the argument array and
  the number of invocations of the transition function stay as they were. If all inputs
  are non-null and \<open>noTransValue\<close> holds, the state becomes the first argument's
  value with both flags false, and the transition function is not invoked. Consequently,
  when the initial value is null and every row of a group has a null input, the group
  ends with a null state after zero invocations, and without a final function the
  aggregate's result is null.
\<close>

theorem C1_strict_transfn:
  assumes "fn_strict pertrans"
  shows "((\<exists>i\<in>{1..numTransInputs pertrans}. nd_isnull (args env i)) \<longrightarrow>
            advance_transition_function pertrans env = env)
       \<and> ((\<forall>i\<in>{1..numTransInputs pertrans}. \<not> nd_isnull (args env i)) \<and>
            noTransValue (pergroupstate env) \<longrightarrow>
            pergroupstate (advance_transition_function pertrans env) =
              \<lparr>transValue = nd_value (args env 1), transValueIsNull = False,
               noTransValue = False\<rparr> \<and>
            transfn_calls (advance_transition_function pertrans env) = transfn_calls env)
       \<and> (initValueIsNull pertrans \<and>
            (\<forall>row\<in>set rows. list_ex nd_isnull (take (numTransInputs pertrans) row)) \<longrightarrow>
            transValueIsNull (pergroupstate (advance_rows pertrans (new_group pertrans a) rows)) \<and>
            transfn_calls (advance_rows pertrans (new_group pertrans a) rows) = 0 \<and>
            (finalfn peragg = None \<longrightarrow>
               nd_isnull (finalize_aggregate peragg
                 (pergroupstate (advance_rows pertrans (new_group pertrans a) rows)) directargs)))"
proof (intro conjI impI)
  assume "\<exists>i\<in>{1..numTransInputs pertrans}. nd_isnull (args env i)"
  then have "null_input (args env) (numTransInputs pertrans)"
    by (auto simp: null_input_iff)
  with assms show "advance_transition_function pertrans env = env"
    by (rule advance_null_input)
next
  assume h: "(\<forall>i\<in>{1..numTransInputs pertrans}. \<not> nd_isnull (args env i)) \<and>
            noTransValue (pergroupstate env)"
  then have n: "\<not> null_input (args env) (numTransInputs pertrans)"
    by (auto simp: null_input_iff)
  from assms n h show "pergroupstate (advance_transition_function pertrans env) =
              \<lparr>transValue = nd_value (args env 1), transValueIsNull = False,
               noTransValue = False\<rparr>"
    by (simp add: advance_transition_function_def Let_def)
  from assms n h show "transfn_calls (advance_transition_function pertrans env) = transfn_calls env"
    by (simp add: advance_transition_function_def Let_def)
next
  assume h: "initValueIsNull pertrans \<and>
            (\<forall>row\<in>set rows. list_ex nd_isnull (take (numTransInputs pertrans) row))"
  let ?e = "advance_rows pertrans (new_group pertrans a) rows"
  from assms h have e: "pergroupstate ?e = pergroupstate (new_group pertrans a)"
    "transfn_calls ?e = transfn_calls (new_group pertrans a)"
    using advance_rows_null [of pertrans rows "new_group pertrans a"] by simp_all
  from e h show "transValueIsNull (pergroupstate ?e)"
    by (simp add: new_group_def initialize_aggregate_def)
  from e show "transfn_calls ?e = 0"
    by (simp add: new_group_def)
  assume "finalfn peragg = None"
  with e h show "nd_isnull (finalize_aggregate peragg (pergroupstate ?e) directargs)"
    by (simp add: finalize_aggregate_def new_group_def initialize_aggregate_def)
qed


theorem C1_strict_transfn_witness:
  "fn_strict max_pertrans
   \<and> advance_transition_function max_pertrans
        \<lparr>args = (\<lambda>_. null_datum), pergroupstate = initialize_aggregate max_pertrans,
         transfn_calls = 0\<rparr>
      = \<lparr>args = (\<lambda>_. null_datum), pergroupstate = initialize_aggregate max_pertrans,
         transfn_calls = 0\<rparr>
   \<and> pergroupstate (advance_transition_function max_pertrans
        \<lparr>args = (\<lambda>_. datum 5), pergroupstate = initialize_aggregate max_pertrans,
         transfn_calls = 0\<rparr>)
      = \<lparr>transValue = 5, transValueIsNull = False, noTransValue = False\<rparr>
   \<and> transValueIsNull (pergroupstate
        (advance_rows max_pertrans (new_group max_pertrans (\<lambda>_. null_datum))
           [[null_datum], [null_datum]]))
   \<and> transfn_calls
        (advance_rows max_pertrans (new_group max_pertrans (\<lambda>_. null_datum))
           [[null_datum], [null_datum]]) = 0
   \<and> nd_isnull (finalize_aggregate no_finalfn (pergroupstate
        (advance_rows max_pertrans (new_group max_pertrans (\<lambda>_. null_datum))
           [[null_datum], [null_datum]])) [])"
  using C1_strict_transfn [of max_pertrans
          "\<lparr>args = (\<lambda>_. null_datum), pergroupstate = initialize_aggregate max_pertrans,
            transfn_calls = 0\<rparr>" "[[null_datum], [null_datum]]" "\<lambda>_. null_datum" no_finalfn "[]"]
        C1_strict_transfn [of max_pertrans
          "\<lparr>args = (\<lambda>_. datum 5), pergroupstate = initialize_aggregate max_pertrans,
            transfn_calls = 0\<rparr>" "[]" "\<lambda>_. null_datum" no_finalfn "[]"]
  by (simp add: max_pertrans_def null_datum_def datum_def no_finalfn_def
        initialize_aggregate_def)

subsection \<open>The flag \<open>noTransValue\<close>\<close>

lemma advance_keeps_flag_clear:
  "\<not> noTransValue (pergroupstate env) \<Longrightarrow>
   \<not> noTransValue (pergroupstate (advance_transition_function pertrans env))"
  by (simp add: advance_transition_function_def Let_def)

lemma advance_row_keeps_flag_clear:
  "\<not> noTransValue (pergroupstate env) \<Longrightarrow>
   \<not> noTransValue (pergroupstate (advance_row pertrans env row))"
  by (simp add: advance_row_def advance_keeps_flag_clear)

lemma advance_rows_keeps_flag_clear:
  "\<not> noTransValue (pergroupstate env) \<Longrightarrow>
   \<not> noTransValue (pergroupstate (advance_rows pertrans env rows))"
  unfolding advance_rows_def
  by (induction rows arbitrary: env) (simp_all add: advance_row_keeps_flag_clear)

lemma advance_strict_invariant:
  "fn_strict pertrans \<Longrightarrow>
   noTransValue (pergroupstate env) \<longrightarrow> transValueIsNull (pergroupstate env) \<Longrightarrow>
   noTransValue (pergroupstate (advance_transition_function pertrans env)) \<longrightarrow>
   transValueIsNull (pergroupstate (advance_transition_function pertrans env))"
  by (simp add: advance_transition_function_def Let_def)

lemma advance_rows_strict_invariant:
  "fn_strict pertrans \<Longrightarrow>
   noTransValue (pergroupstate env) \<longrightarrow> transValueIsNull (pergroupstate env) \<Longrightarrow>
   noTransValue (pergroupstate (advance_rows pertrans env rows)) \<longrightarrow>
   transValueIsNull (pergroupstate (advance_rows pertrans env rows))"
  unfolding advance_rows_def
proof (induction rows arbitrary: env)
  case Nil
  then show ?case by simp
next
  case (Cons row rows)
  have "noTransValue (pergroupstate (advance_row pertrans env row)) \<longrightarrow>
        transValueIsNull (pergroupstate (advance_row pertrans env row))"
    unfolding advance_row_def
    by (rule advance_strict_invariant) (use Cons.prems in simp_all)
  from Cons.IH [OF Cons.prems(1) this] show ?case by simp
qed

lemma not_null_input_load_args:
  assumes "n \<le> length row" "\<not> list_ex nd_isnull (take n row)"
  shows "\<not> null_input (load_args a 0 (take n row)) n"
proof
  assume "null_input (load_args a 0 (take n row)) n"
  then obtain i where i: "1 \<le> i" "i \<le> n" "nd_isnull (load_args a 0 (take n row) i)"
    by (auto simp: null_input_iff)
  then obtain k where k: "i = Suc k" by (cases i) auto
  with i assms have "k < length (take n row)" by simp
  then have "load_args a 0 (take n row) (Suc (0 + k)) = take n row ! k"
    by (rule load_args_nth)
  with i k have "nd_isnull (take n row ! k)" by simp
  moreover from \<open>k < length (take n row)\<close> have "take n row ! k \<in> set (take n row)"
    by (rule nth_mem)
  ultimately show False
    using assms(2) unfolding list_ex_iff by blast
qed

lemma advance_row_clears_flag:
  assumes "fn_strict pertrans" "numTransInputs pertrans \<le> length row"
    "\<not> list_ex nd_isnull (take (numTransInputs pertrans) row)"
  shows "\<not> noTransValue (pergroupstate (advance_row pertrans env row))"
  using assms not_null_input_load_args [OF assms(2,3), of "args env"]
  by (simp add: advance_row_def advance_transition_function_def Let_def)

lemma advance_nonstrict_flag:
  "\<not> fn_strict pertrans \<Longrightarrow>
   noTransValue (pergroupstate (advance_transition_function pertrans env)) =
     noTransValue (pergroupstate env)"
  by (simp add: advance_transition_function_def Let_def)

lemma advance_rows_nonstrict_flag:
  "\<not> fn_strict pertrans \<Longrightarrow>
   noTransValue (pergroupstate (advance_rows pertrans env rows)) =
     noTransValue (pergroupstate env)"
  unfolding advance_rows_def
  by (induction rows arbitrary: env) (simp_all add: advance_row_def advance_nonstrict_flag)

text \<open>
  Setting the flag of a state by hand, to see what depends on it.
\<close>

lemma advance_nonstrict_flag_unread:
  "\<not> fn_strict pertrans \<Longrightarrow>
   advance_transition_function pertrans
     (env\<lparr>pergroupstate := (pergroupstate env)\<lparr>noTransValue := flag\<rparr>\<rparr>) =
   (advance_transition_function pertrans env)
     \<lparr>pergroupstate :=
        (pergroupstate (advance_transition_function pertrans env))\<lparr>noTransValue := flag\<rparr>\<rparr>"
  by (simp add: advance_transition_function_def Let_def)

lemma advance_row_nonstrict_flag_unread:
  "\<not> fn_strict pertrans \<Longrightarrow>
   advance_row pertrans (env\<lparr>pergroupstate := (pergroupstate env)\<lparr>noTransValue := flag\<rparr>\<rparr>) row =
   (advance_row pertrans env row)
     \<lparr>pergroupstate := (pergroupstate (advance_row pertrans env row))\<lparr>noTransValue := flag\<rparr>\<rparr>"
  by (simp add: advance_row_def advance_transition_function_def Let_def)

lemma advance_rows_nonstrict_flag_unread:
  "\<not> fn_strict pertrans \<Longrightarrow>
   advance_rows pertrans (env\<lparr>pergroupstate := (pergroupstate env)\<lparr>noTransValue := flag\<rparr>\<rparr>) rows =
   (advance_rows pertrans env rows)
     \<lparr>pergroupstate := (pergroupstate (advance_rows pertrans env rows))\<lparr>noTransValue := flag\<rparr>\<rparr>"
  unfolding advance_rows_def
proof (induction rows arbitrary: env)
  case Nil
  show ?case by simp
next
  case (Cons row rows)
  from Cons.IH [OF Cons.prems, where env = "advance_row pertrans env row"]
  show ?case by (simp add: advance_row_nonstrict_flag_unread [OF Cons.prems])
qed

text \<open>
  Claim C8. For a strict transition function: in every state a group reaches from
  \<open>initialize_aggregate\<close> by calls of \<open>advance_transition_function\<close>,
  \<open>noTransValue\<close> implies \<open>transValueIsNull\<close>; and once a row without null
  inputs has been processed, \<open>noTransValue\<close> is false after every later row of the
  group. For a transition function that is not strict: after any rows the flag is still
  the null flag of the initial value, and it is not read, that is, running the rows from a
  state whose flag was set to another value gives the same argument array, transition
  value, null flag and number of calls, and leaves the flag at that other value.
\<close>

theorem C8_strict_flag_invariant:
  "(fn_strict pertrans \<longrightarrow>
      (noTransValue (pergroupstate (advance_rows pertrans (new_group pertrans a) rows)) \<longrightarrow>
       transValueIsNull (pergroupstate (advance_rows pertrans (new_group pertrans a) rows)))
    \<and> (numTransInputs pertrans \<le> length row \<and>
       \<not> list_ex nd_isnull (take (numTransInputs pertrans) row) \<longrightarrow>
       \<not> noTransValue (pergroupstate
           (advance_rows pertrans (new_group pertrans a) (rows @ row # rest)))))
   \<and> (\<not> fn_strict pertrans \<longrightarrow>
      noTransValue (pergroupstate (advance_rows pertrans (new_group pertrans a) rows)) =
        initValueIsNull pertrans
    \<and> advance_rows pertrans
        (env\<lparr>pergroupstate := (pergroupstate env)\<lparr>noTransValue := flag\<rparr>\<rparr>) rows =
      (advance_rows pertrans env rows)
        \<lparr>pergroupstate :=
           (pergroupstate (advance_rows pertrans env rows))\<lparr>noTransValue := flag\<rparr>\<rparr>)"
proof (intro conjI impI)
  assume s: "fn_strict pertrans"
  have "noTransValue (pergroupstate (new_group pertrans a)) \<longrightarrow>
        transValueIsNull (pergroupstate (new_group pertrans a))"
    by (simp add: new_group_def initialize_aggregate_def)
  from advance_rows_strict_invariant [OF s this]
  show "noTransValue (pergroupstate (advance_rows pertrans (new_group pertrans a) rows)) \<Longrightarrow>
        transValueIsNull (pergroupstate (advance_rows pertrans (new_group pertrans a) rows))"
    by simp
next
  assume s: "fn_strict pertrans"
  assume h: "numTransInputs pertrans \<le> length row \<and>
          \<not> list_ex nd_isnull (take (numTransInputs pertrans) row)"
  let ?e = "advance_rows pertrans (new_group pertrans a) rows"
  have "\<not> noTransValue (pergroupstate (advance_row pertrans ?e row))"
    using s h by (simp add: advance_row_clears_flag)
  then have "\<not> noTransValue (pergroupstate (advance_rows pertrans (advance_row pertrans ?e row) rest))"
    by (rule advance_rows_keeps_flag_clear)
  then show "\<not> noTransValue (pergroupstate
              (advance_rows pertrans (new_group pertrans a) (rows @ row # rest)))"
    by (simp add: advance_rows_def)
next
  assume n: "\<not> fn_strict pertrans"
  from advance_rows_nonstrict_flag [OF n, of "new_group pertrans a" rows]
  show "noTransValue (pergroupstate (advance_rows pertrans (new_group pertrans a) rows)) =
        initValueIsNull pertrans"
    by (simp add: new_group_def initialize_aggregate_def)
next
  assume n: "\<not> fn_strict pertrans"
  then show "advance_rows pertrans
        (env\<lparr>pergroupstate := (pergroupstate env)\<lparr>noTransValue := flag\<rparr>\<rparr>) rows =
      (advance_rows pertrans env rows)
        \<lparr>pergroupstate :=
           (pergroupstate (advance_rows pertrans env rows))\<lparr>noTransValue := flag\<rparr>\<rparr>"
    by (rule advance_rows_nonstrict_flag_unread)
qed

theorem C8_strict_flag_invariant_witness:
  "fn_strict max_pertrans
   \<and> (noTransValue (pergroupstate (advance_rows max_pertrans
          (new_group max_pertrans (\<lambda>_. null_datum)) [[null_datum]])) \<and>
      transValueIsNull (pergroupstate (advance_rows max_pertrans
          (new_group max_pertrans (\<lambda>_. null_datum)) [[null_datum]])))
   \<and> \<not> noTransValue (pergroupstate (advance_rows max_pertrans
          (new_group max_pertrans (\<lambda>_. null_datum))
          ([[null_datum]] @ [datum 3] # [[null_datum], [datum 2]])))
   \<and> \<not> fn_strict collect_pertrans
   \<and> initValueIsNull collect_pertrans
   \<and> noTransValue (pergroupstate (advance_rows collect_pertrans
          (new_group collect_pertrans (\<lambda>_. null_datum)) [[datum 7], [null_datum]]))
   \<and> pergroupstate (advance_rows collect_pertrans
        ((new_group collect_pertrans (\<lambda>_. null_datum))
           \<lparr>pergroupstate :=
              (pergroupstate (new_group collect_pertrans (\<lambda>_. null_datum)))
                \<lparr>noTransValue := False\<rparr>\<rparr>) [[datum 7]]) =
      (pergroupstate (advance_rows collect_pertrans
          (new_group collect_pertrans (\<lambda>_. null_datum)) [[datum 7]]))
        \<lparr>noTransValue := False\<rparr>"
  using C8_strict_flag_invariant [where pertrans = max_pertrans and a = "\<lambda>_. null_datum" and
          rows = "[[null_datum]]" and row = "[datum 3]" and rest = "[[null_datum], [datum 2]]"]
        C8_strict_flag_invariant [where pertrans = collect_pertrans and a = "\<lambda>_. null_datum" and
          rows = "[[datum 7], [null_datum]]"]
        C8_strict_flag_invariant [where pertrans = collect_pertrans and a = "\<lambda>_. null_datum" and
          rows = "[[datum 7]]" and env = "new_group collect_pertrans (\<lambda>_. null_datum)" and
          flag = False]
  by (simp add: max_pertrans_def collect_pertrans_def null_datum_def datum_def advance_rows_def
        advance_row_def advance_transition_function_def new_group_def initialize_aggregate_def
        null_input_def Let_def)

text \<open>
  Claim C8 as stated covers every transition function. With a transition function that
  is not strict the flag is never consulted and never cleared: after the first row of
  \<open>collect_pertrans\<close> the state is non-null while \<open>noTransValue\<close> still holds.
\<close>

theorem C8_nonstrict_counterexample:
  "\<not> (noTransValue (pergroupstate (advance_rows collect_pertrans
          (new_group collect_pertrans (\<lambda>_. null_datum)) [[datum 7]])) \<longrightarrow>
       transValueIsNull (pergroupstate (advance_rows collect_pertrans
          (new_group collect_pertrans (\<lambda>_. null_datum)) [[datum 7]])))"
  by (simp add: collect_pertrans_def null_datum_def datum_def advance_rows_def advance_row_def
        advance_transition_function_def new_group_def initialize_aggregate_def
        null_input_def Let_def)

subsection \<open>DISTINCT over one column\<close>

lemma step_null_after_null:
  assumes "numDistinctCols pertrans > 0" "haveOldVal st" "oldIsNull st" "sd_isnull d"
  shows "ordered_single_step pertrans st d =
         st\<lparr>os_env := (os_env st)\<lparr>args := (args (os_env st))
                   (1 := \<lparr>nd_value = sd_value d, nd_isnull = True\<rparr>)\<rparr>\<rparr>"
  using assms by (simp add: ordered_single_step_def Let_def)

lemma step_null_counts:
  assumes "numDistinctCols pertrans > 0" "sd_isnull d"
  shows "haveOldVal (ordered_single_step pertrans st d) \<and>
         oldIsNull (ordered_single_step pertrans st d) \<and>
         equalfn_calls (ordered_single_step pertrans st d) = equalfn_calls st \<and>
         advance_calls (ordered_single_step pertrans st d) =
           (if haveOldVal st \<and> oldIsNull st then advance_calls st else Suc (advance_calls st))"
  using assms by (simp add: ordered_single_step_def Let_def)

lemma scan_null_run_settled:
  assumes "numDistinctCols pertrans > 0" "\<forall>d\<in>set run. sd_isnull d"
    "haveOldVal st" "oldIsNull st"
  shows "haveOldVal (ordered_single_scan pertrans st run) \<and>
         oldIsNull (ordered_single_scan pertrans st run) \<and>
         equalfn_calls (ordered_single_scan pertrans st run) = equalfn_calls st \<and>
         advance_calls (ordered_single_scan pertrans st run) = advance_calls st \<and>
         transfn_calls (os_env (ordered_single_scan pertrans st run)) = transfn_calls (os_env st) \<and>
         pergroupstate (os_env (ordered_single_scan pertrans st run)) = pergroupstate (os_env st)"
  using assms unfolding ordered_single_scan_def
proof (induction run arbitrary: st)
  case Nil
  then show ?case by simp
next
  case (Cons d run)
  let ?st = "ordered_single_step pertrans st d"
  have eq: "?st = st\<lparr>os_env := (os_env st)\<lparr>args := (args (os_env st))
                   (1 := \<lparr>nd_value = sd_value d, nd_isnull = True\<rparr>)\<rparr>\<rparr>"
    using Cons.prems by (intro step_null_after_null) simp_all
  have "haveOldVal ?st" "oldIsNull ?st"
    using Cons.prems by (simp_all add: eq)
  from Cons.IH [OF Cons.prems(1) _ this] Cons.prems(2)
  show ?case by (simp add: eq)
qed

text \<open>
  Claim C10. In DISTINCT mode, scanning a run of null datums from any state of the loop
  calls \<open>advance_transition_function\<close> at most once and never calls the equality
  operator; when the datum before the run was null as well (or the run is in its second
  datum), nothing is advanced at all and the group's state is unchanged.
\<close>

theorem C10_null_run_advances_once:
  assumes "numDistinctCols pertrans > 0" "\<forall>d\<in>set run. sd_isnull d"
  shows "advance_calls (ordered_single_scan pertrans st run) \<le> Suc (advance_calls st)
       \<and> equalfn_calls (ordered_single_scan pertrans st run) = equalfn_calls st
       \<and> (haveOldVal st \<and> oldIsNull st \<longrightarrow>
            advance_calls (ordered_single_scan pertrans st run) = advance_calls st \<and>
            pergroupstate (os_env (ordered_single_scan pertrans st run)) =
              pergroupstate (os_env st))"
proof (cases run)
  case Nil
  then show ?thesis by (simp add: ordered_single_scan_def)
next
  case (Cons d ds)
  let ?st = "ordered_single_step pertrans st d"
  from assms Cons have d: "sd_isnull d" and ds: "\<forall>d\<in>set ds. sd_isnull d" by simp_all
  note s1 = step_null_counts [OF assms(1) d, of st]
  from s1 have "haveOldVal ?st" "oldIsNull ?st" by simp_all
  note s2 = scan_null_run_settled [OF assms(1) ds this]
  have scan: "ordered_single_scan pertrans st run = ordered_single_scan pertrans ?st ds"
    by (simp add: Cons ordered_single_scan_def)
  show ?thesis
  proof (intro conjI impI)
    show "advance_calls (ordered_single_scan pertrans st run) \<le> Suc (advance_calls st)"
      using s1 s2 by (simp add: scan)
    show "equalfn_calls (ordered_single_scan pertrans st run) = equalfn_calls st"
      using s1 s2 by (simp add: scan)
  next
    assume h: "haveOldVal st \<and> oldIsNull st"
    then show "advance_calls (ordered_single_scan pertrans st run) = advance_calls st"
      using scan_null_run_settled [OF assms, of st] by simp
    from h show "pergroupstate (os_env (ordered_single_scan pertrans st run)) =
              pergroupstate (os_env st)"
      using scan_null_run_settled [OF assms, of st] by simp
  qed
qed

theorem C10_null_run_advances_once_witness:
  "numDistinctCols max_distinct_pertrans > 0
   \<and> sd_isnull null_sortdatum
   \<and> advance_calls (ordered_single_scan max_distinct_pertrans
         (ordered_single_scan max_distinct_pertrans
            (ordered_single_init (new_group max_distinct_pertrans (\<lambda>_. null_datum)))
            [sortdatum 1, null_sortdatum])
         [null_sortdatum, null_sortdatum, null_sortdatum]) = 2
   \<and> equalfn_calls (ordered_single_scan max_distinct_pertrans
         (ordered_single_scan max_distinct_pertrans
            (ordered_single_init (new_group max_distinct_pertrans (\<lambda>_. null_datum)))
            [sortdatum 1, null_sortdatum])
         [null_sortdatum, null_sortdatum, null_sortdatum]) = 0"
  using C10_null_run_advances_once [of max_distinct_pertrans
          "[null_sortdatum, null_sortdatum, null_sortdatum]"
          "ordered_single_scan max_distinct_pertrans
            (ordered_single_init (new_group max_distinct_pertrans (\<lambda>_. null_datum)))
            [sortdatum 1, null_sortdatum]"]
  by (simp add: max_distinct_pertrans_def max_pertrans_def null_sortdatum_def sortdatum_def
        null_datum_def ordered_single_scan_def ordered_single_step_def ordered_single_init_def
        new_group_def initialize_aggregate_def advance_transition_function_def
        null_input_def Let_def)

section \<open>Properties of the spill files\<close>

lemma u32_roundtrip: "u32_of_bytes (u32_to_bytes w) = w"
  unfolding u32_of_bytes_def u32_to_bytes_def
proof (rule bit_word_eqI)
  fix n :: nat
  assume n: "n < LENGTH(32)"
  consider "n < 8" | "8 \<le> n" "n < 16" | "16 \<le> n" "n < 24" | "24 \<le> n" "n < 32"
    using n by fastforce
  then show "bit (ucast ([ucast w, ucast (drop_bit 8 w), ucast (drop_bit 16 w),
                  ucast (drop_bit 24 w) :: byte] ! 0) OR
             push_bit 8 (ucast ([ucast w, ucast (drop_bit 8 w), ucast (drop_bit 16 w),
                  ucast (drop_bit 24 w) :: byte] ! 1)) OR
             push_bit 16 (ucast ([ucast w, ucast (drop_bit 8 w), ucast (drop_bit 16 w),
                  ucast (drop_bit 24 w) :: byte] ! 2)) OR
             push_bit 24 (ucast ([ucast w, ucast (drop_bit 8 w), ucast (drop_bit 16 w),
                  ucast (drop_bit 24 w) :: byte] ! 3)) :: 32 word) n = bit w n"
    by cases (simp_all add: bit_simps, arith+)
qed

lemma length_u32_to_bytes: "length (u32_to_bytes w) = 4"
  by (simp add: u32_to_bytes_def)

lemma u32_to_bytes_not_Nil: "u32_to_bytes w \<noteq> []"
  by (simp add: u32_to_bytes_def)

lemma tape_read:
  assumes "tape_ok s lts tp"
  shows "fst (LogicalTapeRead s lts tp n) =
           take n (drop (tape_pos (tape_at s lts tp)) (tape_data (tape_at s lts tp)))"
    and "tape_ok (snd (LogicalTapeRead s lts tp n)) lts tp"
    and "tape_at (snd (LogicalTapeRead s lts tp n)) lts tp =
           (tape_at s lts tp)\<lparr>tape_pos := tape_pos (tape_at s lts tp) +
              length (fst (LogicalTapeRead s lts tp n))\<rparr>"
  using assms by (simp_all add: LogicalTapeRead_def tape_ok_def tape_at_def Let_def)

lemma tape_write:
  assumes "tape_ok s lts tp"
  shows "tape_ok (LogicalTapeWrite s lts tp bs) lts tp"
    and "tape_at (LogicalTapeWrite s lts tp bs) lts tp =
           (tape_at s lts tp)\<lparr>tape_data := tape_data (tape_at s lts tp) @ bs\<rparr>"
  using assms by (simp_all add: LogicalTapeWrite_def tape_ok_def tape_at_def)

lemma read_spilled_record:
  assumes ok: "tape_ok s lts tp" and wf: "tuple_wf tuple"
    and rec: "drop (tape_pos (tape_at s lts tp)) (tape_data (tape_at s lts tp)) =
              u32_to_bytes hash @ tuple_image tuple @ more_bytes"
  shows "fst (hash_read_spilled s lts tp) = Inr (Some (hash, tuple))"
    and "tape_ok (snd (hash_read_spilled s lts tp)) lts tp"
    and "tape_at (snd (hash_read_spilled s lts tp)) lts tp =
           (tape_at s lts tp)\<lparr>tape_pos := tape_pos (tape_at s lts tp) + 4 + unat (t_len tuple)\<rparr>"
proof -
  let ?t = "tape_at s lts tp"
  let ?r1 = "LogicalTapeRead s lts tp 4"
  let ?s1 = "snd ?r1"
  have h: "fst ?r1 = u32_to_bytes hash"
    using tape_read(1) [OF ok, of 4] rec by (simp add: length_u32_to_bytes)
  have ok1: "tape_ok ?s1 lts tp" by (rule tape_read(2) [OF ok])
  have t1: "tape_at ?s1 lts tp = ?t\<lparr>tape_pos := tape_pos ?t + 4\<rparr>"
    using tape_read(3) [OF ok, of 4] h by (simp add: length_u32_to_bytes)
  have d1: "drop (tape_pos ?t + 4) (tape_data ?t) = tuple_image tuple @ more_bytes"
    using rec by (metis add.commute append_eq_conv_conj drop_drop length_u32_to_bytes)
  let ?r2 = "LogicalTapeRead ?s1 lts tp 4"
  let ?s2 = "snd ?r2"
  have l: "fst ?r2 = u32_to_bytes (t_len tuple)"
    using tape_read(1) [OF ok1, of 4] t1 d1
    by (simp add: tuple_image_def length_u32_to_bytes)
  have ok2: "tape_ok ?s2 lts tp" by (rule tape_read(2) [OF ok1])
  have t2: "tape_at ?s2 lts tp = ?t\<lparr>tape_pos := tape_pos ?t + 8\<rparr>"
    using tape_read(3) [OF ok1, of 4] l t1 by (simp add: length_u32_to_bytes)
  have d2: "drop (tape_pos ?t + 8) (tape_data ?t) = t_rest tuple @ more_bytes"
  proof -
    have "drop 4 (drop (tape_pos ?t + 4) (tape_data ?t)) = t_rest tuple @ more_bytes"
      unfolding d1 by (simp add: tuple_image_def length_u32_to_bytes)
    then show ?thesis by (simp add: add.commute)
  qed
  let ?want = "size_t_minus (unat (t_len tuple)) 4"
  have lt: "unat (t_len tuple) < 2 ^ 32"
    using unsigned_less [of "t_len tuple", where 'a = nat] by simp
  have want: "?want = unat (t_len tuple) - 4"
  proof -
    from wf have four: "4 \<le> unat (t_len tuple)" by (simp add: tuple_wf_def)
    have small: "unat (t_len tuple) - 4 < (2 :: nat) ^ 64" using lt by simp
    from four have "unat (t_len tuple) + 2 ^ 64 - 4 = (unat (t_len tuple) - 4) + 2 ^ 64"
      by simp
    then have "?want = ((unat (t_len tuple) - 4) + 2 ^ 64) mod 2 ^ 64"
      by (simp only: size_t_minus_def)
    also have "\<dots> = (unat (t_len tuple) - 4) mod 2 ^ 64"
      by (rule mod_add_self2)
    also have "\<dots> = unat (t_len tuple) - 4"
      using small by (rule mod_less)
    finally show ?thesis .
  qed
  let ?r3 = "LogicalTapeRead ?s2 lts tp ?want"
  let ?s3 = "snd ?r3"
  have len_rest: "length (t_rest tuple) = unat (t_len tuple) - 4"
    using wf by (simp add: tuple_wf_def)
  have d: "fst ?r3 = t_rest tuple"
    using tape_read(1) [OF ok2, of ?want] t2 d2 len_rest by (simp add: want)
  have ok3: "tape_ok ?s3 lts tp" by (rule tape_read(2) [OF ok2])
  have t3: "tape_at ?s3 lts tp = ?t\<lparr>tape_pos := tape_pos ?t + 4 + unat (t_len tuple)\<rparr>"
    using tape_read(3) [OF ok2, of ?want] d t2 len_rest wf
    by (simp add: tuple_wf_def)
  have res: "hash_read_spilled s lts tp =
     (Inr (Some (u32_of_bytes (fst ?r1),
                 \<lparr>t_len = u32_of_bytes (fst ?r2), t_rest = fst ?r3\<rparr>)), ?s3)"
    using h l d len_rest
    by (simp add: hash_read_spilled_def Let_def split_beta length_u32_to_bytes u32_roundtrip
          want u32_to_bytes_not_Nil)
  show "fst (hash_read_spilled s lts tp) = Inr (Some (hash, tuple))"
    by (simp add: res h l d u32_roundtrip)
  show "tape_ok (snd (hash_read_spilled s lts tp)) lts tp"
    by (simp add: res ok3)
  show "tape_at (snd (hash_read_spilled s lts tp)) lts tp =
           ?t\<lparr>tape_pos := tape_pos ?t + 4 + unat (t_len tuple)\<rparr>"
    by (simp add: res t3)
qed

lemma read_spilled_eof:
  assumes "tape_ok s lts tp"
    and "tape_pos (tape_at s lts tp) \<ge> length (tape_data (tape_at s lts tp))"
  shows "fst (hash_read_spilled s lts tp) = Inr None"
  using assms tape_read(1) [OF assms(1), of 4]
  by (simp add: hash_read_spilled_def Let_def split_beta)

text \<open>
  Claim C6. Let a well-formed tuple (its \<open>t_len\<close> counts the four bytes of the length
  field and the rest of the tuple) be spilled with a 32-bit hash. The bytes appended to the
  partition's tape are the hash, then the length field, then the rest of the tuple; the
  function reports \<open>4 + t_len\<close> bytes; and \<open>hash_read_spilled\<close>, reading that tape
  from the position where the write began, returns exactly this hash and this tuple.
\<close>

theorem C6_spill_roundtrip:
  assumes wf: "tuple_wf tuple"
    and spill: "spill_lts spill = Some lts" "partitions spill = Some ps"
    and ok: "tape_ok store lts (ps ! spill_partition (partition_bits spill) in_bits hash)"
  shows "tape_data (tape_at (fst (snd (hash_spill_tuple store spill in_bits tuple hash))) lts
              (ps ! spill_partition (partition_bits spill) in_bits hash)) =
           tape_data (tape_at store lts (ps ! spill_partition (partition_bits spill) in_bits hash))
             @ u32_to_bytes hash @ u32_to_bytes (t_len tuple) @ t_rest tuple
       \<and> unat (t_len tuple) = 4 + length (t_rest tuple)
       \<and> snd (snd (hash_spill_tuple store spill in_bits tuple hash)) = 4 + unat (t_len tuple)
       \<and> (\<forall>s. tape_ok s lts (ps ! spill_partition (partition_bits spill) in_bits hash) \<and>
               tape_data (tape_at s lts (ps ! spill_partition (partition_bits spill) in_bits hash)) =
                 tape_data (tape_at (fst (snd (hash_spill_tuple store spill in_bits tuple hash)))
                   lts (ps ! spill_partition (partition_bits spill) in_bits hash)) \<and>
               tape_pos (tape_at s lts (ps ! spill_partition (partition_bits spill) in_bits hash)) =
                 length (tape_data (tape_at store lts
                   (ps ! spill_partition (partition_bits spill) in_bits hash)))
             \<longrightarrow> fst (hash_read_spilled s lts
                       (ps ! spill_partition (partition_bits spill) in_bits hash)) =
                   Inr (Some (hash, tuple)))"
proof -
  let ?tp = "ps ! spill_partition (partition_bits spill) in_bits hash"
  let ?store' = "fst (snd (hash_spill_tuple store spill in_bits tuple hash))"
  have len: "unat (t_len tuple) = 4 + length (t_rest tuple)"
    using wf by (simp add: tuple_wf_def)
  have img: "take (unat (t_len tuple)) (tuple_image tuple) = tuple_image tuple"
    using len by (simp add: tuple_image_def length_u32_to_bytes)
  have st: "?store' = LogicalTapeWrite (LogicalTapeWrite store lts ?tp (u32_to_bytes hash))
                        lts ?tp (tuple_image tuple)"
    using spill img by (simp add: hash_spill_tuple_def Let_def)
  have data: "tape_data (tape_at ?store' lts ?tp) =
           tape_data (tape_at store lts ?tp) @ u32_to_bytes hash @ u32_to_bytes (t_len tuple)
             @ t_rest tuple"
    unfolding st using tape_write [OF ok] tape_write(2) [OF tape_write(1) [OF ok]]
    by (simp add: tuple_image_def)
  have written: "snd (snd (hash_spill_tuple store spill in_bits tuple hash)) = 4 + unat (t_len tuple)"
    by (simp add: hash_spill_tuple_def Let_def)
  have rd: "fst (hash_read_spilled s lts ?tp) = Inr (Some (hash, tuple))"
    if s: "tape_ok s lts ?tp" "tape_data (tape_at s lts ?tp) = tape_data (tape_at ?store' lts ?tp)"
      "tape_pos (tape_at s lts ?tp) = length (tape_data (tape_at store lts ?tp))" for s
  proof (rule read_spilled_record(1) [OF s(1) wf, where more_bytes = "[]"])
    show "drop (tape_pos (tape_at s lts ?tp)) (tape_data (tape_at s lts ?tp)) =
          u32_to_bytes hash @ tuple_image tuple @ []"
      using s(2,3) data by (simp add: tuple_image_def)
  qed
  from data len written rd show ?thesis by blast
qed

theorem C6_spill_roundtrip_witness:
  "tuple_wf sample_tuple
   \<and> tape_ok sample_store 0 3
   \<and> spill_partition (partition_bits sample_spill) 0 0xC0000001 = 3
   \<and> tape_data (tape_at (fst (snd (hash_spill_tuple sample_store sample_spill 0 sample_tuple
         0xC0000001))) 0 3) = [1, 0, 0, 192, 6, 0, 0, 0, 17, 42]
   \<and> fst (hash_read_spilled
         (LogicalTapeRewindForRead
            (fst (snd (hash_spill_tuple sample_store sample_spill 0 sample_tuple 0xC0000001))) 0 3)
         0 3) = Inr (Some (0xC0000001, sample_tuple))"
proof -
  have p: "spill_partition (partition_bits sample_spill) 0 0xC0000001 = 3"
    by (simp add: spill_partition_def sample_spill_def)
  have wf: "tuple_wf sample_tuple"
    by (simp add: tuple_wf_def sample_tuple_def)
  have ok: "tape_ok sample_store 0 3"
    by (simp add: tape_ok_def sample_store_def)
  have ok': "tape_ok sample_store 0
       ([0, 1, 2, 3] ! spill_partition (partition_bits sample_spill) 0 0xC0000001)"
    using ok by (simp add: p)
  have spill: "spill_lts sample_spill = Some 0" "partitions sample_spill = Some [0, 1, 2, 3]"
    by (simp_all add: sample_spill_def)
  note t = C6_spill_roundtrip [OF wf spill ok']
  let ?s' = "fst (snd (hash_spill_tuple sample_store sample_spill 0 sample_tuple 0xC0000001))"
  have data: "tape_data (tape_at ?s' 0 3) = [1, 0, 0, 192, 6, 0, 0, 0, 17, 42]"
    using t by (simp add: p tape_at_def sample_store_def empty_tape_def u32_to_bytes_def
        sample_tuple_def)
  have ok2: "tape_ok ?s' 0 3"
    by (simp add: hash_spill_tuple_def Let_def sample_spill_def p tape_ok_def
        LogicalTapeWrite_def sample_store_def)
  have "fst (hash_read_spilled (LogicalTapeRewindForRead ?s' 0 3) 0 3) =
          Inr (Some (0xC0000001, sample_tuple))"
    using t ok2
    by (simp add: p tape_ok_def tape_at_def LogicalTapeRewindForRead_def sample_store_def
        empty_tape_def)
  with wf ok p data show ?thesis by simp
qed

section \<open>Properties of the partition choice\<close>


lemma my_log2_loop_lower: "i \<le> my_log2_loop i num"
proof (induction i num rule: my_log2_loop.induct)
  case (1 i num)
  show ?case
  proof (cases "2 ^ i < num")
    case True
    with 1 have "Suc i \<le> my_log2_loop (Suc i) num" by simp
    with True show ?thesis by (subst my_log2_loop.simps) simp
  next
    case False
    then show ?thesis by (subst my_log2_loop.simps) simp
  qed
qed

lemma my_log2_loop_covers: "num \<le> 2 ^ my_log2_loop i num"
proof (induction i num rule: my_log2_loop.induct)
  case (1 i num)
  show ?case
  proof (cases "2 ^ i < num")
    case True
    with 1 have "num \<le> 2 ^ my_log2_loop (Suc i) num" by simp
    with True show ?thesis by (subst my_log2_loop.simps) simp
  next
    case False
    then show ?thesis by (subst my_log2_loop.simps) simp
  qed
qed

lemma my_log2_loop_least: "i \<le> j \<Longrightarrow> num \<le> 2 ^ j \<Longrightarrow> my_log2_loop i num \<le> j"
proof (induction i num rule: my_log2_loop.induct)
  case (1 i num)
  show ?case
  proof (cases "2 ^ i < num")
    case True
    have "i \<noteq> j" using True "1.prems"(2) by auto
    with "1.prems" have "Suc i \<le> j" by simp
    with 1 True have "my_log2_loop (Suc i) num \<le> j" by simp
    with True show ?thesis by (subst my_log2_loop.simps) simp
  next
    case False
    with "1.prems" show ?thesis by (subst my_log2_loop.simps) simp
  qed
qed

lemma my_log2_nonneg: "0 \<le> my_log2 n"
  by (simp add: my_log2_def)

lemma my_log2_covers: "n \<le> 2 ^ nat (my_log2 n)"
proof -
  have "nat n \<le> 2 ^ my_log2_loop 0 (nat n)" by (rule my_log2_loop_covers)
  then have h: "int (nat n) \<le> int (2 ^ my_log2_loop 0 (nat n))" by (rule iffD2 [OF of_nat_le_iff])
  show ?thesis
  proof (cases "0 \<le> n")
    case True
    with h show ?thesis by (simp add: my_log2_def)
  next
    case False
    then have "n \<le> 0" by simp
    also have "(0 :: int) \<le> 2 ^ nat (my_log2 n)" by simp
    finally show ?thesis .
  qed
qed

lemma my_log2_least: "n \<le> 2 ^ k \<Longrightarrow> my_log2 n \<le> int k"
proof -
  assume "n \<le> 2 ^ k"
  then have "nat n \<le> 2 ^ k"
    by (metis nat_le_iff of_nat_numeral of_nat_power)
  then have "my_log2_loop 0 (nat n) \<le> k" by (intro my_log2_loop_least) simp_all
  then show ?thesis by (simp add: my_log2_def)
qed

lemma my_log2_power: "my_log2 (2 ^ k) = int k"
proof (rule antisym)
  show "my_log2 (2 ^ k) \<le> int k" by (rule my_log2_least) simp
  have "(2 :: int) ^ k \<le> 2 ^ nat (my_log2 (2 ^ k))" by (rule my_log2_covers)
  then have "k \<le> nat (my_log2 (2 ^ k))" by simp
  then show "int k \<le> my_log2 (2 ^ k)" using my_log2_nonneg [of "2 ^ k"] by linarith
qed

lemma my_log2_tight: "1 < n \<Longrightarrow> 2 ^ nat (my_log2 n) < 2 * n"
proof -
  assume n: "1 < n"
  have pos: "0 < my_log2 n"
  proof (rule ccontr)
    assume "\<not> 0 < my_log2 n"
    with my_log2_nonneg [of n] have "my_log2 n = 0" by simp
    with my_log2_covers [of n] n show False by simp
  qed
  then obtain k where k: "nat (my_log2 n) = Suc k"
    by (cases "nat (my_log2 n)") auto
  have "\<not> n \<le> 2 ^ k"
  proof
    assume "n \<le> 2 ^ k"
    then have "my_log2 n \<le> int k" by (rule my_log2_least)
    with k show False by simp
  qed
  then have "(2 :: int) ^ k < n" by simp
  then show ?thesis by (simp add: k)
qed

lemma choose_range:
  "HASH_MIN_PARTITIONS \<le> hash_choose_num_spill_partitions cfg g s \<and>
   hash_choose_num_spill_partitions cfg g s \<le> HASH_MAX_PARTITIONS"
  by (simp add: hash_choose_num_spill_partitions_def Let_def HASH_MIN_PARTITIONS_def
        HASH_MAX_PARTITIONS_def)

lemma my_log2_choose_range:
  "2 \<le> my_log2 (hash_choose_num_spill_partitions cfg g s) \<and>
   my_log2 (hash_choose_num_spill_partitions cfg g s) \<le> 8"
proof
  let ?c = "hash_choose_num_spill_partitions cfg g s"
  from choose_range [of cfg g s] have c: "4 \<le> ?c" "?c \<le> 256"
    by (simp_all add: HASH_MIN_PARTITIONS_def HASH_MAX_PARTITIONS_def)
  have "?c \<le> 2 ^ 8" using c by simp
  then show "my_log2 ?c \<le> 8" using my_log2_least [of ?c 8] by simp
  show "2 \<le> my_log2 ?c"
  proof (rule ccontr)
    assume "\<not> 2 \<le> my_log2 ?c"
    with my_log2_nonneg [of ?c] have "nat (my_log2 ?c) \<le> 1" by simp
    then have "(2 :: int) ^ nat (my_log2 ?c) \<le> 2 ^ 1"
      by (intro power_increasing) simp_all
    with my_log2_covers [of ?c] c show False by simp
  qed
qed

lemma spill_init_partition_bits:
  "0 \<le> spill_partition_bits cfg b g s \<Longrightarrow>
   partition_bits (fst (hash_spill_init cfg store spill b g s)) = spill_partition_bits cfg b g s \<and>
   n_partitions (fst (hash_spill_init cfg store spill b g s)) =
     2 ^ nat (spill_partition_bits cfg b g s)"
  by (cases "spill_lts spill")
     (simp_all add: hash_spill_init_def Let_def LogicalTapeSetCreate_def my_log2_power)

lemma spill_partition_window:
  assumes "0 \<le> b" "0 < p" "b + p \<le> 32"
  shows "spill_partition p b hash = (unat hash div 2 ^ nat (32 - b - p)) mod 2 ^ nat p"
proof -
  define a where "a = nat b"
  define q where "q = nat p"
  define r where "r = nat (32 - b - p)"
  have sum: "a + q + r = 32" using assms by (simp add: a_def q_def r_def)
  have w: "drop_bit (nat (32 - p)) (push_bit (nat b) hash) = take_bit q (drop_bit r hash)"
  proof (rule bit_word_eqI)
    fix n :: nat
    assume "n < LENGTH(32)"
    have e: "nat (32 - p) = a + r" using assms by (simp add: a_def r_def)
    show "bit (drop_bit (nat (32 - p)) (push_bit (nat b) hash)) n =
          bit (take_bit q (drop_bit r hash)) n"
      unfolding e a_def [symmetric]
      using sum by (auto simp add: bit_simps ac_simps dest: bit_imp_le_length)
  qed
  have "spill_partition p b hash = unat (take_bit q (drop_bit r hash))"
    using assms w by (simp add: spill_partition_def)
  also have "\<dots> = take_bit q (drop_bit r (unat hash))"
  proof -
    have "unat hash < 2 ^ 32"
      using unsigned_less [of hash, where 'a = nat] by simp
    then have "take_bit 32 (unat hash) = unat hash"
      by (simp add: take_bit_nat_eq_self_iff)
    then show ?thesis
      by (simp add: unsigned_take_bit_eq unsigned_drop_bit_eq)
  qed
  also have "\<dots> = (unat hash div 2 ^ r) mod 2 ^ q"
    by (simp add: take_bit_eq_mod drop_bit_eq_div)
  finally show ?thesis by (simp add: q_def r_def)
qed



lemma int_of_ulong_small: "int n < 2 ^ 31 \<Longrightarrow> int_of_ulong n = int n"
proof -
  assume n: "int n < 2 ^ 31"
  have "int_of_ulong n = sint (word_of_int (int n) :: 32 word)"
    by (simp add: int_of_ulong_def)
  also have "\<dots> = signed_take_bit 31 (int n)"
    by (simp only: sint_sbintrunc') simp
  also have "\<dots> = int n"
    using n by (intro signed_take_bit_int_eq_self) simp_all
  finally show ?thesis .
qed

lemma estimate_eq:
  assumes "0 < w" "0 \<le> x"
  shows "int (nat \<lfloor>x\<rfloor> div nat w) = \<lfloor>x / real_of_int w\<rfloor>"
proof -
  have "0 \<le> \<lfloor>x\<rfloor>" using assms(2) by simp
  then have "int (nat \<lfloor>x\<rfloor> div nat w) = \<lfloor>x\<rfloor> div w"
    using assms(1) by (simp add: zdiv_int)
  also have "\<dots> = \<lfloor>x / real_of_int w\<rfloor>"
    using assms(1) by (simp add: floor_divide_real_eq_div)
  finally show ?thesis .
qed


lemma round_to_double_exact: "\<bar>m\<bar> < 2 ^ 53 \<Longrightarrow> round_to_double m e = Double m e"
proof -
  assume "\<bar>m\<bar> < 2 ^ 53"
  then have "bitlen \<bar>m\<bar> \<le> 53" by (simp add: bitlen_le_iff_power)
  then show ?thesis by (simp add: round_to_double_def)
qed

lemma double_to_Size_floor:
  "0 \<le> mantissa d \<Longrightarrow> int (double_to_Size d) = \<lfloor>real_of_double d\<rfloor>"
proof (cases "exponent d \<ge> 0")
  case True
  assume m: "0 \<le> mantissa d"
  have "real_of_double d = real_of_int (mantissa d * 2 ^ nat (exponent d))"
    using True by (simp add: real_of_double_def)
  then have "\<lfloor>real_of_double d\<rfloor> = mantissa d * 2 ^ nat (exponent d)"
    by (simp only: floor_of_int)
  then show ?thesis using True m by (simp add: double_to_Size_def)
next
  case False
  assume m: "0 \<le> mantissa d"
  have "real_of_double d = real_of_int (mantissa d) / real_of_int (2 ^ nat (- exponent d))"
    using False by (simp add: real_of_double_def)
  then have "\<lfloor>real_of_double d\<rfloor> = mantissa d div 2 ^ nat (- exponent d)"
    by (simp only: floor_divide_of_int_eq)
  then show ?thesis using False m by (simp add: double_to_Size_def zdiv_int)
qed

lemma mem_needed_exact:
  assumes g: "3 * int input_groups < 2 ^ 53" and s: "0 \<le> mantissa hashentrysize"
    and p: "3 * int input_groups * mantissa hashentrysize < 2 ^ 53"
  shows "int (mem_needed input_groups hashentrysize) =
         \<lfloor>real_of_double HASH_PARTITION_FACTOR * real input_groups * real_of_double hashentrysize\<rfloor>"
proof -
  define gi where "gi = int input_groups"
  define ms where "ms = mantissa hashentrysize"
  define es where "es = exponent hashentrysize"
  have g0: "0 \<le> gi" by (simp add: gi_def)
  from g have "\<bar>gi\<bar> < 2 ^ 53" using g0 by (simp add: gi_def)
  then have c: "double_of_uint64 input_groups = Double gi 0"
    unfolding double_of_uint64_def gi_def [symmetric] by (rule round_to_double_exact)
  from g have "\<bar>3 * gi\<bar> < 2 ^ 53" using g0 by (simp add: gi_def)
  then have f: "double_mult HASH_PARTITION_FACTOR (double_of_uint64 input_groups) =
                Double (3 * gi) (- 1)"
    by (simp add: double_mult_def HASH_PARTITION_FACTOR_def c round_to_double_exact)
  from s g0 have nn: "0 \<le> 3 * gi * ms" by (simp add: ms_def)
  with p have "\<bar>3 * gi * ms\<bar> < 2 ^ 53" by (simp add: gi_def ms_def)
  then have r: "double_mult (Double (3 * gi) (- 1)) hashentrysize = Double (3 * gi * ms) (es - 1)"
    by (simp add: double_mult_def round_to_double_exact ms_def es_def)
  have v: "real_of_double (Double (3 * gi * ms) (es - 1)) =
           real_of_double HASH_PARTITION_FACTOR * real input_groups * real_of_double hashentrysize"
  proof (cases "es \<ge> 1")
    case True
    then have "nat es = Suc (nat (es - 1))" by simp
    then have "(2 :: real) ^ nat es = 2 * 2 ^ nat (es - 1)" by simp
    with True show ?thesis
      by (simp add: real_of_double_def HASH_PARTITION_FACTOR_def gi_def ms_def es_def)
  next
    case False
    then have "nat (1 - es) = Suc (nat (- es))" by simp
    then have "(2 :: real) ^ nat (1 - es) = 2 * 2 ^ nat (- es)" by simp
    with False show ?thesis
      by (simp add: real_of_double_def HASH_PARTITION_FACTOR_def gi_def ms_def es_def)
  qed
  have "int (mem_needed input_groups hashentrysize) =
        int (double_to_Size (Double (3 * gi * ms) (es - 1)))"
    by (simp add: mem_needed_def f r)
  also have "\<dots> = \<lfloor>real_of_double (Double (3 * gi * ms) (es - 1))\<rfloor>"
    using nn by (intro double_to_Size_floor) simp
  finally show ?thesis by (simp only: v)
qed

lemma partition_estimate_exact:
  assumes wm: "0 < work_mem cfg"
    and g: "3 * int input_groups < 2 ^ 53" and s: "0 \<le> mantissa hashentrysize"
    and p: "3 * int input_groups * mantissa hashentrysize < 2 ^ 53"
  shows "int (partition_estimate cfg input_groups hashentrysize) =
         spec_partition_estimate cfg input_groups hashentrysize"
proof -
  let ?x = "real_of_double HASH_PARTITION_FACTOR * real input_groups * real_of_double hashentrysize"
  have w: "0 < work_mem cfg * 1024" using wm by simp
  have m: "int (mem_needed input_groups hashentrysize) = \<lfloor>?x\<rfloor>"
    by (rule mem_needed_exact [OF g s p])
  have "int (mem_needed input_groups hashentrysize div nat (work_mem cfg * 1024)) =
        int (mem_needed input_groups hashentrysize) div (work_mem cfg * 1024)"
    using w by (simp add: zdiv_int)
  also have "\<dots> = \<lfloor>?x\<rfloor> div (work_mem cfg * 1024)" by (simp only: m)
  also have "\<dots> = \<lfloor>?x / real_of_int (work_mem cfg * 1024)\<rfloor>"
    by (simp only: floor_divide_real_eq_div [OF order_less_imp_le [OF w]])
  finally show ?thesis
    by (simp add: partition_estimate_def spec_partition_estimate_def)
qed

lemma choose_eq:
  "hash_choose_num_spill_partitions cfg input_groups hashentrysize =
     min 256 (max 4 (min (int_of_ulong (partition_estimate cfg input_groups hashentrysize))
                         (partition_limit cfg)))"
  by (simp add: hash_choose_num_spill_partitions_def Let_def HASH_MIN_PARTITIONS_def
        HASH_MAX_PARTITIONS_def min_def max_def)

lemma spill_partition_bits_range:
  "0 \<le> in_bits \<Longrightarrow> in_bits \<le> 32 \<Longrightarrow>
   0 \<le> spill_partition_bits cfg in_bits g s \<and>
   in_bits + spill_partition_bits cfg in_bits g s \<le> 32 \<and>
   spill_partition_bits cfg in_bits g s =
     min (my_log2 (hash_choose_num_spill_partitions cfg g s)) (32 - in_bits)"
  using my_log2_nonneg [of "hash_choose_num_spill_partitions cfg g s"]
  by (simp add: spill_partition_bits_def Let_def min_def)


text \<open>
  Claim C4, as the code computes it. The estimate is one more than \<open>mem_needed\<close> divided
  by \<open>work_mem\<close> in bytes, where \<open>mem_needed\<close> is the product of
  \<open>HASH_PARTITION_FACTOR\<close>, the number of groups and the entry size in \<open>double\<close>
  arithmetic without its fraction; it is the estimate of the spec when both products are
  exact. \<open>hash_choose_num_spill_partitions\<close> narrows the estimate to an \<open>int\<close>, which
  leaves it as it is below \<open>2 ^ 31\<close>, limits it to the partition cap first, then raises
  it to at least 4, then limits it to at most 256. \<open>hash_spill_init\<close> rounds that number
  up to the next power of two, which is the number of partitions unless the 32-bit cut
  applies: a power of two from 4 to 256, at least the number chosen and less than twice as
  large. With the cut the number of partitions is still a power of two.
\<close>

theorem C4_partition_count:
  "hash_choose_num_spill_partitions cfg input_groups hashentrysize =
     min 256 (max 4 (min (int_of_ulong (partition_estimate cfg input_groups hashentrysize))
                         (partition_limit cfg)))
   \<and> (int (partition_estimate cfg input_groups hashentrysize) < 2 ^ 31 \<longrightarrow>
        int_of_ulong (partition_estimate cfg input_groups hashentrysize) =
          int (partition_estimate cfg input_groups hashentrysize))
   \<and> (0 < work_mem cfg \<and> 3 * int input_groups < 2 ^ 53 \<and> 0 \<le> mantissa hashentrysize \<and>
       3 * int input_groups * mantissa hashentrysize < 2 ^ 53 \<longrightarrow>
        int (partition_estimate cfg input_groups hashentrysize) =
          spec_partition_estimate cfg input_groups hashentrysize)
   \<and> 4 \<le> hash_choose_num_spill_partitions cfg input_groups hashentrysize
   \<and> hash_choose_num_spill_partitions cfg input_groups hashentrysize \<le> 256
   \<and> (my_log2 (hash_choose_num_spill_partitions cfg input_groups hashentrysize) + in_bits < 32
        \<longrightarrow>
        n_partitions (fst (hash_spill_init cfg store spill in_bits input_groups hashentrysize)) =
          2 ^ nat (my_log2 (hash_choose_num_spill_partitions cfg input_groups hashentrysize))
        \<and> hash_choose_num_spill_partitions cfg input_groups hashentrysize
            \<le> n_partitions (fst (hash_spill_init cfg store spill in_bits input_groups hashentrysize))
        \<and> n_partitions (fst (hash_spill_init cfg store spill in_bits input_groups hashentrysize))
            < 2 * hash_choose_num_spill_partitions cfg input_groups hashentrysize
        \<and> 4 \<le> n_partitions (fst (hash_spill_init cfg store spill in_bits input_groups hashentrysize))
        \<and> n_partitions (fst (hash_spill_init cfg store spill in_bits input_groups hashentrysize))
            \<le> 256)
   \<and> (0 \<le> in_bits \<and> in_bits \<le> 32 \<longrightarrow>
        n_partitions (fst (hash_spill_init cfg store spill in_bits input_groups hashentrysize)) =
          2 ^ nat (min (my_log2 (hash_choose_num_spill_partitions cfg input_groups hashentrysize))
                       (32 - in_bits)))"
proof -
  let ?c = "hash_choose_num_spill_partitions cfg input_groups hashentrysize"
  let ?n = "n_partitions (fst (hash_spill_init cfg store spill in_bits input_groups hashentrysize))"
  let ?e = "partition_estimate cfg input_groups hashentrysize"
  from choose_range [of cfg input_groups hashentrysize] have c: "4 \<le> ?c" "?c \<le> 256"
    by (simp_all add: HASH_MIN_PARTITIONS_def HASH_MAX_PARTITIONS_def)
  have narrow: "int ?e < 2 ^ 31 \<longrightarrow> int_of_ulong ?e = int ?e"
    using int_of_ulong_small [of ?e] by simp
  have exact: "0 < work_mem cfg \<and> 3 * int input_groups < 2 ^ 53 \<and> 0 \<le> mantissa hashentrysize \<and>
       3 * int input_groups * mantissa hashentrysize < 2 ^ 53 \<longrightarrow>
        int ?e = spec_partition_estimate cfg input_groups hashentrysize"
    using partition_estimate_exact [of cfg input_groups hashentrysize] by blast
  have uncut: "my_log2 ?c + in_bits < 32 \<longrightarrow>
        ?n = 2 ^ nat (my_log2 ?c) \<and> ?c \<le> ?n \<and> ?n < 2 * ?c \<and> 4 \<le> ?n \<and> ?n \<le> 256"
  proof
    assume u: "my_log2 ?c + in_bits < 32"
    have pb: "spill_partition_bits cfg in_bits input_groups hashentrysize = my_log2 ?c"
      using u by (simp add: spill_partition_bits_def Let_def)
    have n: "?n = 2 ^ nat (my_log2 ?c)"
      using spill_init_partition_bits [of cfg in_bits input_groups hashentrysize store spill]
        my_log2_nonneg [of ?c] by (simp add: pb)
    have up: "?c \<le> ?n" unfolding n by (rule my_log2_covers)
    have tight: "?n < 2 * ?c" unfolding n using c by (intro my_log2_tight) simp
    have "nat (my_log2 ?c) \<le> 8"
      using my_log2_choose_range [of cfg input_groups hashentrysize] by linarith
    then have "(2 :: int) ^ nat (my_log2 ?c) \<le> 2 ^ 8" by (intro power_increasing) simp_all
    then have hi: "?n \<le> 256" by (simp add: n)
    have lo: "4 \<le> ?n" using c(1) up by (rule order_trans)
    from n up tight lo hi
    show "?n = 2 ^ nat (my_log2 ?c) \<and> ?c \<le> ?n \<and> ?n < 2 * ?c \<and> 4 \<le> ?n \<and> ?n \<le> 256"
      by blast
  qed
  have cut: "0 \<le> in_bits \<and> in_bits \<le> 32 \<longrightarrow> ?n = 2 ^ nat (min (my_log2 ?c) (32 - in_bits))"
  proof
    assume b: "0 \<le> in_bits \<and> in_bits \<le> 32"
    then have "0 \<le> in_bits" "in_bits \<le> 32" by simp_all
    from spill_partition_bits_range [OF this, of cfg input_groups hashentrysize]
    have r: "0 \<le> spill_partition_bits cfg in_bits input_groups hashentrysize"
      "spill_partition_bits cfg in_bits input_groups hashentrysize =
         min (my_log2 ?c) (32 - in_bits)"
      by blast+
    from spill_init_partition_bits [OF r(1), of store spill]
    show "?n = 2 ^ nat (min (my_log2 ?c) (32 - in_bits))" by (simp add: r(2))
  qed
  show ?thesis
  proof (intro conjI)
    show "?c = min 256 (max 4 (min (int_of_ulong ?e) (partition_limit cfg)))" by (rule choose_eq)
    show "int ?e < 2 ^ 31 \<longrightarrow> int_of_ulong ?e = int ?e" by (rule narrow)
    show "0 < work_mem cfg \<and> 3 * int input_groups < 2 ^ 53 \<and> 0 \<le> mantissa hashentrysize \<and>
       3 * int input_groups * mantissa hashentrysize < 2 ^ 53 \<longrightarrow>
        int ?e = spec_partition_estimate cfg input_groups hashentrysize" by (rule exact)
    show "4 \<le> ?c" by (rule c(1))
    show "?c \<le> 256" by (rule c(2))
    show "my_log2 ?c + in_bits < 32 \<longrightarrow>
        ?n = 2 ^ nat (my_log2 ?c) \<and> ?c \<le> ?n \<and> ?n < 2 * ?c \<and> 4 \<le> ?n \<and> ?n \<le> 256"
      by (rule uncut)
    show "0 \<le> in_bits \<and> in_bits \<le> 32 \<longrightarrow> ?n = 2 ^ nat (min (my_log2 ?c) (32 - in_bits))"
      by (rule cut)
  qed
qed

lemma sample_mem_needed: "mem_needed 1000000 entry_size_64 = 96000000"
  by (simp add: mem_needed_def double_mult_def double_of_uint64_def HASH_PARTITION_FACTOR_def
        entry_size_64_def round_to_double_exact double_to_Size_def)

lemma sample_estimate: "partition_estimate spill_cfg 1000000 entry_size_64 = 23"
  by (simp add: partition_estimate_def sample_mem_needed spill_cfg_def)

lemma sample_spec_estimate: "spec_partition_estimate spill_cfg 1000000 entry_size_64 = 23"
  by (simp add: spec_partition_estimate_def spill_cfg_def HASH_PARTITION_FACTOR_def
        entry_size_64_def real_of_double_def)

lemma sample_limit: "partition_limit spill_cfg = 128"
  by (simp add: partition_limit_def spill_cfg_def)

lemma my_log2_23: "my_log2 23 = 5"
  by (simp add: my_log2_def my_log2_loop.simps)

lemma my_log2_5: "my_log2 5 = 3"
  by (simp add: my_log2_def my_log2_loop.simps)

lemma my_log2_4: "my_log2 4 = 2"
  by (simp add: my_log2_def my_log2_loop.simps)

lemma third_product:
  "double_mult (double_mult HASH_PARTITION_FACTOR (double_of_uint64 8)) entry_size_third =
     Double 9007199254740992 (- 29)"
  by code_simp

lemma third_mem_needed: "mem_needed 8 entry_size_third = 16777216"
  by (simp add: mem_needed_def third_product double_to_Size_def)

lemma third_estimate: "partition_estimate spill_cfg 8 entry_size_third = 5"
  by (simp add: partition_estimate_def third_mem_needed spill_cfg_def)

lemma third_spec_estimate: "spec_partition_estimate spill_cfg 8 entry_size_third = 4"
proof -
  have "real_of_double HASH_PARTITION_FACTOR * real 8 * real_of_double entry_size_third
          / real_of_int (work_mem spill_cfg * 1024) = 18014398509481983 / 4503599627370496"
    by (simp add: spill_cfg_def HASH_PARTITION_FACTOR_def entry_size_third_def real_of_double_def)
  moreover have "\<lfloor>18014398509481983 / 4503599627370496 :: real\<rfloor> = 3"
    by (simp add: floor_eq_iff)
  ultimately have "\<lfloor>real_of_double HASH_PARTITION_FACTOR * real 8 * real_of_double entry_size_third
          / real_of_int (work_mem spill_cfg * 1024)\<rfloor> = 3"
    by (simp only:)
  then show ?thesis by (simp only: spec_partition_estimate_def)
qed

theorem C4_partition_count_witness:
  "partition_estimate spill_cfg 1000000 entry_size_64 = 23
   \<and> spec_partition_estimate spill_cfg 1000000 entry_size_64 = 23
   \<and> partition_limit spill_cfg = 128
   \<and> hash_choose_num_spill_partitions spill_cfg 1000000 entry_size_64 = 23
   \<and> n_partitions (fst (hash_spill_init spill_cfg [] empty_spill 0 1000000 entry_size_64)) = 32
   \<and> partition_estimate spill_cfg 8 entry_size_third = 5
   \<and> spec_partition_estimate spill_cfg 8 entry_size_third = 4
   \<and> hash_choose_num_spill_partitions spill_cfg 8 entry_size_third = 5
   \<and> n_partitions (fst (hash_spill_init spill_cfg [] empty_spill 0 8 entry_size_third)) = 8
   \<and> n_partitions (fst (hash_spill_init spill_cfg [] empty_spill 30 8 entry_size_third)) = 4"
proof -
  note a = C4_partition_count [of spill_cfg 1000000 entry_size_64 0 "[]" empty_spill]
  note b = C4_partition_count [of spill_cfg 8 entry_size_third 0 "[]" empty_spill]
  note c = C4_partition_count [of spill_cfg 8 entry_size_third 30 "[]" empty_spill]
  have wm: "0 < work_mem spill_cfg" by (simp add: spill_cfg_def)
  have ex: "3 * int 1000000 < 2 ^ 53" "0 \<le> mantissa entry_size_64"
    "3 * int 1000000 * mantissa entry_size_64 < 2 ^ 53"
    by (simp_all add: entry_size_64_def)
  from a wm ex have s: "spec_partition_estimate spill_cfg 1000000 entry_size_64 = 23"
    by (simp add: sample_estimate)
  from a have ca: "hash_choose_num_spill_partitions spill_cfg 1000000 entry_size_64 = 23"
    by (simp add: sample_estimate sample_limit)
  from a have na: "n_partitions (fst (hash_spill_init spill_cfg [] empty_spill 0 1000000 entry_size_64)) = 32"
    by (simp add: ca my_log2_23)
  from b have cb: "hash_choose_num_spill_partitions spill_cfg 8 entry_size_third = 5"
    by (simp add: third_estimate sample_limit)
  from b have nb: "n_partitions (fst (hash_spill_init spill_cfg [] empty_spill 0 8 entry_size_third)) = 8"
    by (simp add: cb my_log2_5)
  from c have nc: "n_partitions (fst (hash_spill_init spill_cfg [] empty_spill 30 8 entry_size_third)) = 4"
    by (simp add: cb my_log2_5)
  from s ca na cb nb nc show ?thesis
    by (simp add: sample_estimate sample_limit third_estimate third_spec_estimate)
qed

lemma small_choose: "hash_choose_num_spill_partitions small_cfg 1000 entry_size_64 = 4"
  by (simp add: choose_eq partition_estimate_def mem_needed_def double_mult_def
        double_of_uint64_def HASH_PARTITION_FACTOR_def entry_size_64_def round_to_double_exact
        double_to_Size_def small_cfg_def int_of_ulong_def partition_limit_def)

text \<open>
  Claim C4 as stated bounds the partition count by the partition cap. With the smallest
  \<open>work_mem\<close> (64 kB) and 8 kB blocks the cap is 2, and the lower bound of 4 partitions
  is applied after the cap: four partitions are created.
\<close>

theorem C4_partition_cap_counterexample:
  "\<not> (n_partitions (fst (hash_spill_init small_cfg [] empty_spill 0 1000 entry_size_64))
        \<le> \<lfloor>real_of_int (work_mem small_cfg * 1024) * 0.25 / real_of_int (BLCKSZ small_cfg)\<rfloor>)"
proof -
  have "n_partitions (fst (hash_spill_init small_cfg [] empty_spill 0 1000 entry_size_64)) = 4"
    by (simp add: hash_spill_init_def spill_partition_bits_def small_choose my_log2_4 Let_def
          empty_spill_def LogicalTapeSetCreate_def)
  then show ?thesis by (simp add: small_cfg_def)
qed


lemma spill_finish_loop_batches:
  "hash_batches (spill_finish_loop spill set_no bits idxs w) =
     hash_batches w @
     map (\<lambda>i. hash_batch_new (the (spill_lts spill)) (the (partitions spill) ! i) set_no
                (the (ntuples spill) ! i) (partition_bits spill + bits)) idxs"
  by (induction idxs arbitrary: w) (simp_all add: Let_def)

lemma hash_spill_finish_batches:
  "drop (length (hash_batches w)) (hash_batches (fst (hash_spill_finish w spill set_no bits))) =
     (if n_partitions spill = 0 then []
      else map (\<lambda>i. hash_batch_new (the (spill_lts spill)) (the (partitions spill) ! i) set_no
                       (the (ntuples spill) ! i) (partition_bits spill + bits))
               [0..<nat (n_partitions spill)])"
  by (simp add: hash_spill_finish_def Let_def spill_finish_loop_batches)

lemma hash_spill_finish_length:
  "length (hash_batches (fst (hash_spill_finish w spill set_no bits))) =
     length (hash_batches w) + nat (n_partitions spill)"
  by (simp add: hash_spill_finish_def Let_def spill_finish_loop_batches)

lemma spill_partition_bits_bounds:
  assumes "0 \<le> in_bits" "in_bits \<le> 32"
  shows "0 \<le> spill_partition_bits cfg in_bits g s"
    and "in_bits + spill_partition_bits cfg in_bits g s \<le> 32"
  using spill_partition_bits_range [OF assms, of cfg g s] by blast+

lemma spill_init_shape:
  assumes "0 \<le> in_bits" "in_bits \<le> 32"
  shows "partition_bits (fst (hash_spill_init cfg store sp in_bits g s)) =
           spill_partition_bits cfg in_bits g s
       \<and> n_partitions (fst (hash_spill_init cfg store sp in_bits g s)) =
           2 ^ nat (spill_partition_bits cfg in_bits g s)
       \<and> map_option length (partitions (fst (hash_spill_init cfg store sp in_bits g s))) =
           Some (nat (n_partitions (fst (hash_spill_init cfg store sp in_bits g s))))
       \<and> map_option length (ntuples (fst (hash_spill_init cfg store sp in_bits g s))) =
           Some (nat (n_partitions (fst (hash_spill_init cfg store sp in_bits g s))))"
proof -
  from spill_partition_bits_bounds(1) [OF assms, of cfg g s]
  show ?thesis
    by (cases "spill_lts sp")
       (simp_all add: hash_spill_init_def Let_def LogicalTapeSetCreate_def my_log2_power)
qed

lemma created_invariant:
  "(spill_created cfg spill bits \<longrightarrow>
      0 \<le> bits \<and> 0 \<le> partition_bits spill \<and> bits + partition_bits spill \<le> 32 \<and>
      n_partitions spill = 2 ^ nat (partition_bits spill) \<and>
      map_option length (partitions spill) = Some (nat (n_partitions spill)) \<and>
      map_option length (ntuples spill) = Some (nat (n_partitions spill)))
   \<and> (batch_created cfg batch \<longrightarrow> 0 \<le> input_bits batch \<and> input_bits batch \<le> 32)"
proof (induction rule: spill_created_batch_created.induct)
  case (first_spill store input_groups hashentrysize)
  have "(0 :: int) \<le> 0" "(0 :: int) \<le> 32" by simp_all
  from spill_init_shape [OF this, of cfg store empty_spill input_groups hashentrysize]
    spill_partition_bits_bounds [OF this, of cfg input_groups hashentrysize]
  show ?case by auto
next
  case (tuple_spilled spill bits store tuple hash)
  then obtain counts where "ntuples spill = Some counts" by auto
  with tuple_spilled show ?case by (auto simp: hash_spill_tuple_def Let_def)
next
  case (spill_finished spill bits batch w set_no)
  from spill_finished(3) have "input_bits batch = partition_bits spill + bits"
    by (auto simp: hash_spill_finish_batches hash_batch_new_def split: if_splits)
  with spill_finished(2) show ?case by simp
next
  case (respill batch store hashentrysize)
  then have b: "0 \<le> input_bits batch" "input_bits batch \<le> 32" by simp_all
  from spill_init_shape [OF b, of cfg store "batch_spill batch" "input_tuples batch" hashentrysize]
    spill_partition_bits_bounds [OF b, of cfg "input_tuples batch" hashentrysize]
  show ?case using b by auto
qed


text \<open>
  Claim C3. For a spill partition set created at any level, with the input bits
  \<open>bits\<close> of that level: the input bits and the partition bits are not negative and
  their sum is at most 32, and the set has \<open>2 ^ partition_bits\<close> partitions.
  \<open>hash_spill_tuple\<close> counts a tuple in, and writes it to the tape of, the partition
  \<open>(hash << bits) >> (32 - partition_bits)\<close>, or 0 when there are no partition bits;
  this is the number formed by the \<open>partition_bits\<close> bits of the hash that follow its
  \<open>bits\<close> highest bits, and it is one of the partitions of the set.
  \<open>hash_spill_finish\<close> makes one batch for each partition, and every such batch carries
  \<open>bits + partition_bits\<close> input bits, so the level below reads the window that
  follows. For the spill of a batch \<open>hash_spill_init\<close> takes the logarithm of the chosen
  number of partitions and cuts it down to \<open>32 - input_bits\<close>; for the first spill, with
  no input bits, nothing is cut.
\<close>

theorem C3_partition_bit_window:
  "(spill_created cfg spill bits \<longrightarrow>
      0 \<le> bits \<and> 0 \<le> partition_bits spill \<and> bits + partition_bits spill \<le> 32
    \<and> n_partitions spill = 2 ^ nat (partition_bits spill)
    \<and> (let partition =
              (if partition_bits spill = 0 then 0
               else unat (drop_bit (nat (32 - partition_bits spill)) (push_bit (nat bits) hash)))
        in partition = hash_window (partition_bits spill) bits hash
         \<and> int partition < n_partitions spill
         \<and> partition < length (the (partitions spill))
         \<and> ntuples (fst (hash_spill_tuple store spill bits tuple hash)) =
             Some ((the (ntuples spill))[partition := Suc (the (ntuples spill) ! partition)])
         \<and> fst (snd (hash_spill_tuple store spill bits tuple hash)) =
             LogicalTapeWrite
               (LogicalTapeWrite store (the (spill_lts spill))
                  (the (partitions spill) ! partition) (u32_to_bytes hash))
               (the (spill_lts spill)) (the (partitions spill) ! partition)
               (take (unat (t_len tuple)) (tuple_image tuple)))
    \<and> length (hash_batches (fst (hash_spill_finish w spill set_no bits))) =
        length (hash_batches w) + nat (n_partitions spill)
    \<and> (\<forall>b \<in> set (drop (length (hash_batches w))
                        (hash_batches (fst (hash_spill_finish w spill set_no bits)))).
          input_bits b = bits + partition_bits spill \<and> batch_created cfg b))
   \<and> (batch_created cfg batch \<longrightarrow>
        0 \<le> input_bits batch \<and> input_bits batch \<le> 32
      \<and> partition_bits (fst (hash_spill_init cfg store (batch_spill batch) (input_bits batch)
                                (input_tuples batch) hashentrysize)) =
          min (my_log2 (hash_choose_num_spill_partitions cfg (input_tuples batch) hashentrysize))
              (32 - input_bits batch))
   \<and> partition_bits (fst (hash_spill_init cfg store empty_spill 0 input_groups hashentrysize)) =
       my_log2 (hash_choose_num_spill_partitions cfg input_groups hashentrysize)"
proof (intro conjI impI)
  assume c: "spill_created cfg spill bits"
  define p where "p = partition_bits spill"
  from created_invariant [of cfg spill bits] c
  have i: "0 \<le> bits" "0 \<le> p" "bits + p \<le> 32" "n_partitions spill = 2 ^ nat p"
    "map_option length (partitions spill) = Some (nat (n_partitions spill))"
    "map_option length (ntuples spill) = Some (nat (n_partitions spill))"
    unfolding p_def by blast+
  show "0 \<le> bits" "0 \<le> partition_bits spill" "bits + partition_bits spill \<le> 32"
    "n_partitions spill = 2 ^ nat (partition_bits spill)"
    using i by (simp_all add: p_def)
  define k where "k = spill_partition p bits hash"
  have k: "k = (if p = 0 then 0 else unat (drop_bit (nat (32 - p)) (push_bit (nat bits) hash)))"
    by (simp add: k_def spill_partition_def)
  have win: "k = hash_window p bits hash"
  proof (cases "p = 0")
    case True
    then show ?thesis by (simp add: k hash_window_def)
  next
    case False
    with i(2) have "0 < p" by simp
    from spill_partition_window [OF i(1) this i(3)] show ?thesis
      by (simp add: k_def hash_window_def)
  qed
  have "k < 2 ^ nat p" unfolding win hash_window_def by simp
  then have "int k < int (2 ^ nat p)" by (rule iffD2 [OF of_nat_less_iff])
  then have lt: "int k < n_partitions spill" using i(4) by simp
  from i(5) obtain ps where ps: "partitions spill = Some ps" "length ps = nat (n_partitions spill)"
    by auto
  from lt ps have len: "k < length (the (partitions spill))" by simp
  show "let partition =
              (if partition_bits spill = 0 then 0
               else unat (drop_bit (nat (32 - partition_bits spill)) (push_bit (nat bits) hash)))
        in partition = hash_window (partition_bits spill) bits hash
         \<and> int partition < n_partitions spill
         \<and> partition < length (the (partitions spill))
         \<and> ntuples (fst (hash_spill_tuple store spill bits tuple hash)) =
             Some ((the (ntuples spill))[partition := Suc (the (ntuples spill) ! partition)])
         \<and> fst (snd (hash_spill_tuple store spill bits tuple hash)) =
             LogicalTapeWrite
               (LogicalTapeWrite store (the (spill_lts spill))
                  (the (partitions spill) ! partition) (u32_to_bytes hash))
               (the (spill_lts spill)) (the (partitions spill) ! partition)
               (take (unat (t_len tuple)) (tuple_image tuple))"
    unfolding p_def [symmetric] k [symmetric] Let_def
    using win lt len by (simp add: hash_spill_tuple_def Let_def k_def p_def)
  show "length (hash_batches (fst (hash_spill_finish w spill set_no bits))) =
        length (hash_batches w) + nat (n_partitions spill)"
    by (rule hash_spill_finish_length)
  show "\<forall>b \<in> set (drop (length (hash_batches w))
                        (hash_batches (fst (hash_spill_finish w spill set_no bits)))).
          input_bits b = bits + partition_bits spill \<and> batch_created cfg b"
  proof
    fix b
    assume b: "b \<in> set (drop (length (hash_batches w))
                        (hash_batches (fst (hash_spill_finish w spill set_no bits))))"
    then have "input_bits b = bits + partition_bits spill"
      by (auto simp: hash_spill_finish_batches hash_batch_new_def split: if_splits)
    moreover from c b have "batch_created cfg b" by (rule spill_finished)
    ultimately show "input_bits b = bits + partition_bits spill \<and> batch_created cfg b" by simp
  qed
next
  assume c: "batch_created cfg batch"
  with created_invariant [of cfg spill bits batch]
  have b: "0 \<le> input_bits batch" "input_bits batch \<le> 32" by simp_all
  then show "0 \<le> input_bits batch" "input_bits batch \<le> 32" .
  from spill_init_shape [OF b, of cfg store "batch_spill batch" "input_tuples batch" hashentrysize]
    spill_partition_bits_range [OF b, of cfg "input_tuples batch" hashentrysize]
  show "partition_bits (fst (hash_spill_init cfg store (batch_spill batch) (input_bits batch)
                                (input_tuples batch) hashentrysize)) =
          min (my_log2 (hash_choose_num_spill_partitions cfg (input_tuples batch) hashentrysize))
              (32 - input_bits batch)"
    by simp
next
  have z: "(0 :: int) \<le> 0" "(0 :: int) \<le> 32" by simp_all
  from my_log2_choose_range [of cfg input_groups hashentrysize]
  have "min (my_log2 (hash_choose_num_spill_partitions cfg input_groups hashentrysize)) 32 =
        my_log2 (hash_choose_num_spill_partitions cfg input_groups hashentrysize)"
    by simp
  with spill_init_shape [OF z, of cfg store empty_spill input_groups hashentrysize]
    spill_partition_bits_range [OF z, of cfg input_groups hashentrysize]
  show "partition_bits (fst (hash_spill_init cfg store empty_spill 0 input_groups hashentrysize)) =
       my_log2 (hash_choose_num_spill_partitions cfg input_groups hashentrysize)"
    by simp
qed




lemma sample_choose: "hash_choose_num_spill_partitions spill_cfg 1000000 entry_size_64 = 23"
  by (simp add: choose_eq sample_estimate sample_limit int_of_ulong_small)

lemma single_choose: "hash_choose_num_spill_partitions spill_cfg (Suc 0) entry_size_64 = 4"
  by (simp add: choose_eq partition_estimate_def mem_needed_def double_mult_def
        double_of_uint64_def HASH_PARTITION_FACTOR_def entry_size_64_def round_to_double_exact
        double_to_Size_def sample_limit int_of_ulong_small spill_cfg_def)

lemma first_spill_set_eq:
  "first_spill_set = \<lparr>n_partitions = 32, partition_bits = 5, partitions = Some [0..<32],
                        ntuples = Some (replicate 32 0), spill_lts = Some 0\<rparr>"
  by (simp add: first_spill_set_def hash_spill_init_def spill_partition_bits_def sample_choose
        my_log2_23 Let_def empty_spill_def LogicalTapeSetCreate_def)

lemma sample_windows:
  "hash_window 5 0 sample_hash = 24" "hash_window 2 5 sample_hash = 1"
  by (simp_all add: hash_window_def sample_hash_def)

lemma spilled_set_eq:
  "spilled_set = \<lparr>n_partitions = 32, partition_bits = 5, partitions = Some [0..<32],
                    ntuples = Some ((replicate 32 0)[24 := 1]), spill_lts = Some 0\<rparr>"
  by (simp add: spilled_set_def hash_spill_tuple_def first_spill_set_eq Let_def
        spill_partition_def sample_hash_def)

lemma sample_batch_eq:
  "sample_batch = \<lparr>input_tape = 24, input_bits = 5, input_tuples = 1, setno = 0,
                     batch_spill = empty_spill\<lparr>spill_lts := Some 0\<rparr>, batch_lts = Some 0\<rparr>"
  by (simp add: sample_batch_def hash_spill_finish_def Let_def spill_finish_loop_batches
        spilled_set_eq sample_work_def hash_batch_new_def)

lemma sample_batch_new:
  "sample_batch \<in> set (drop (length (hash_batches sample_work))
                          (hash_batches (fst (hash_spill_finish sample_work spilled_set 0 0))))"
proof -
  have "(24 :: nat) \<in> {0..<32}" by simp
  then show ?thesis
    unfolding hash_spill_finish_batches
    by (simp add: sample_batch_eq spilled_set_eq hash_batch_new_def image_iff)
qed

lemma respill_set_eq:
  "respill_set = \<lparr>n_partitions = 4, partition_bits = 2, partitions = Some [32, 33, 34, 35],
                    ntuples = Some [0, 0, 0, 0], spill_lts = Some 0\<rparr>"
proof -
  have "LogicalTapeGetNTapes spilled_store 0 = 32"
    by (simp add: LogicalTapeGetNTapes_def spilled_store_def hash_spill_tuple_def Let_def
          first_spill_set_eq first_spill_store_def hash_spill_init_def spill_partition_bits_def
          sample_choose my_log2_23 empty_spill_def LogicalTapeSetCreate_def LogicalTapeWrite_def
          spill_partition_def sample_hash_def)
  moreover have "spill_partition_bits spill_cfg 5 1 entry_size_64 = 2"
    by (simp add: spill_partition_bits_def single_choose my_log2_4 Let_def)
  moreover have "[32..<36] = [32, 33, 34, 35 :: nat]" by (simp add: upt_rec)
  moreover have "replicate 4 (0 :: nat) = [0, 0, 0, 0]" by (simp add: numeral_eq_Suc)
  moreover have "respill_set =
      fst (hash_spill_init spill_cfg spilled_store (empty_spill\<lparr>spill_lts := Some 0\<rparr>) 5 1
             entry_size_64)"
    by (simp add: respill_set_def sample_batch_eq)
  ultimately show ?thesis
    by (simp add: hash_spill_init_def Let_def empty_spill_def my_log2_4)
qed

theorem C3_partition_bit_window_witness:
  "spill_created spill_cfg spilled_set 0
   \<and> partition_bits spilled_set = 5 \<and> n_partitions spilled_set = 32
   \<and> hash_window 5 0 sample_hash = 24
   \<and> the (ntuples (fst (hash_spill_tuple spilled_store spilled_set 0 sample_tuple sample_hash)))
        ! 24 = 2
   \<and> batch_created spill_cfg sample_batch
   \<and> input_bits sample_batch = 5 \<and> input_tuples sample_batch = 1
   \<and> spill_created spill_cfg respill_set 5
   \<and> partition_bits respill_set = 2 \<and> n_partitions respill_set = 4
   \<and> hash_window 2 5 sample_hash = 1
   \<and> the (ntuples (fst (hash_spill_tuple spilled_store respill_set 5 sample_tuple sample_hash)))
        ! 1 = 1"
proof -
  have s0: "spill_created spill_cfg first_spill_set 0"
    unfolding first_spill_set_def by (rule first_spill)
  then have s1: "spill_created spill_cfg spilled_set 0"
    unfolding spilled_set_def by (rule tuple_spilled)
  note t1 = C3_partition_bit_window [of spill_cfg spilled_set 0 sample_hash spilled_store
              sample_tuple sample_work 0 sample_batch entry_size_64 1000000,
              THEN conjunct1, THEN mp, OF s1]
  from t1 have "\<forall>b \<in> set (drop (length (hash_batches sample_work))
                        (hash_batches (fst (hash_spill_finish sample_work spilled_set 0 0)))).
          input_bits b = 0 + partition_bits spilled_set \<and> batch_created spill_cfg b"
    by blast
  with sample_batch_new
  have "input_bits sample_batch = 0 + partition_bits spilled_set \<and>
        batch_created spill_cfg sample_batch"
    by blast
  then have b: "batch_created spill_cfg sample_batch" and ib: "input_bits sample_batch = 5"
    by (simp_all add: spilled_set_eq)
  from t1 have "let partition =
              (if partition_bits spilled_set = 0 then 0
               else unat (drop_bit (nat (32 - partition_bits spilled_set))
                            (push_bit (nat 0) sample_hash)))
        in partition = hash_window (partition_bits spilled_set) 0 sample_hash
         \<and> int partition < n_partitions spilled_set
         \<and> partition < length (the (partitions spilled_set))
         \<and> ntuples (fst (hash_spill_tuple spilled_store spilled_set 0 sample_tuple sample_hash)) =
             Some ((the (ntuples spilled_set))
                     [partition := Suc (the (ntuples spilled_set) ! partition)])
         \<and> fst (snd (hash_spill_tuple spilled_store spilled_set 0 sample_tuple sample_hash)) =
             LogicalTapeWrite
               (LogicalTapeWrite spilled_store (the (spill_lts spilled_set))
                  (the (partitions spilled_set) ! partition) (u32_to_bytes sample_hash))
               (the (spill_lts spilled_set)) (the (partitions spilled_set) ! partition)
               (take (unat (t_len sample_tuple)) (tuple_image sample_tuple))"
    by blast
  moreover have "(if partition_bits spilled_set = 0 then 0
               else unat (drop_bit (nat (32 - partition_bits spilled_set))
                            (push_bit (nat 0) sample_hash))) = 24"
    by (simp add: spilled_set_eq sample_hash_def)
  ultimately have "ntuples (fst (hash_spill_tuple spilled_store spilled_set 0 sample_tuple sample_hash)) =
             Some ((the (ntuples spilled_set))[24 := Suc (the (ntuples spilled_set) ! 24)])"
    by (simp only: Let_def)
  moreover have "(the (ntuples spilled_set))[24 := Suc (the (ntuples spilled_set) ! 24)] ! 24 = 2"
    by (simp add: spilled_set_eq)
  ultimately have n1: "the (ntuples (fst (hash_spill_tuple spilled_store spilled_set 0 sample_tuple
                          sample_hash))) ! 24 = 2"
    by (simp only: option.sel)
  from b have s2: "spill_created spill_cfg respill_set (input_bits sample_batch)"
    unfolding respill_set_def by (rule respill)
  then have s2': "spill_created spill_cfg respill_set 5" by (simp only: ib)
  note t2 = C3_partition_bit_window [of spill_cfg respill_set 5 sample_hash spilled_store
              sample_tuple sample_work 0 sample_batch entry_size_64 1000000,
              THEN conjunct1, THEN mp, OF s2']
  from t2 have "let partition =
              (if partition_bits respill_set = 0 then 0
               else unat (drop_bit (nat (32 - partition_bits respill_set))
                            (push_bit (nat 5) sample_hash)))
        in partition = hash_window (partition_bits respill_set) 5 sample_hash
         \<and> int partition < n_partitions respill_set
         \<and> partition < length (the (partitions respill_set))
         \<and> ntuples (fst (hash_spill_tuple spilled_store respill_set 5 sample_tuple sample_hash)) =
             Some ((the (ntuples respill_set))
                     [partition := Suc (the (ntuples respill_set) ! partition)])
         \<and> fst (snd (hash_spill_tuple spilled_store respill_set 5 sample_tuple sample_hash)) =
             LogicalTapeWrite
               (LogicalTapeWrite spilled_store (the (spill_lts respill_set))
                  (the (partitions respill_set) ! partition) (u32_to_bytes sample_hash))
               (the (spill_lts respill_set)) (the (partitions respill_set) ! partition)
               (take (unat (t_len sample_tuple)) (tuple_image sample_tuple))"
    by blast
  moreover have "(if partition_bits respill_set = 0 then 0
               else unat (drop_bit (nat (32 - partition_bits respill_set))
                            (push_bit (nat 5) sample_hash))) = 1"
    by (simp add: respill_set_eq sample_hash_def)
  ultimately have "ntuples (fst (hash_spill_tuple spilled_store respill_set 5 sample_tuple sample_hash)) =
             Some ((the (ntuples respill_set))[1 := Suc (the (ntuples respill_set) ! 1)])"
    by (simp only: Let_def)
  moreover have "(the (ntuples respill_set))[1 := Suc (the (ntuples respill_set) ! 1)] ! 1 = 1"
    by (simp add: respill_set_eq)
  ultimately have n2: "the (ntuples (fst (hash_spill_tuple spilled_store respill_set 5 sample_tuple
                          sample_hash))) ! 1 = 1"
    by (simp only: option.sel)
  from s1 b ib s2' n1 n2 show ?thesis
    by (simp add: spilled_set_eq respill_set_eq sample_batch_eq sample_windows)
qed


section \<open>Properties of the memory limits\<close>

lemma ngroups_limit_eq:
  assumes "\<not> hashagg_mem_overflow cfg" "0 < hashentrysize"
  shows "init_hash_ngroups_limit cfg mlimit hashentrysize =
           max 1 \<lfloor>real_of_int mlimit / hashentrysize\<rfloor>"
proof (cases "real_of_int mlimit > hashentrysize")
  case True
  then have "1 \<le> real_of_int mlimit / hashentrysize"
    using assms(2) by (simp add: le_divide_eq)
  then have "1 \<le> \<lfloor>real_of_int mlimit / hashentrysize\<rfloor>" by simp
  with True assms(1) show ?thesis
    by (simp add: init_hash_ngroups_limit_def max_def)
next
  case False
  then have "real_of_int mlimit / hashentrysize \<le> 1"
    using assms(2) by (simp add: divide_le_eq)
  then have "\<lfloor>real_of_int mlimit / hashentrysize\<rfloor> \<le> 1"
    by (simp add: floor_le_iff)
  then have "max 1 \<lfloor>real_of_int mlimit / hashentrysize\<rfloor> = 1"
    by (rule max_absorb1)
  moreover from False assms(1) have "init_hash_ngroups_limit cfg mlimit hashentrysize = 1"
    by (simp add: init_hash_ngroups_limit_def)
  ultimately show ?thesis by simp
qed

text \<open>
  Claim C5, as the code computes it. With enforcement enabled the byte limit is
  \<open>work_mem\<close> (in bytes) minus \<open>HASH_PARTITION_MEM\<close> when \<open>work_mem\<close> is more than
  twice that reservation, and \<open>work_mem\<close> itself otherwise; so it is never above
  \<open>work_mem\<close> and never below half of it. The entry limit is the byte limit divided by
  the entry size, rounded down, and at least 1. With \<open>hashagg_mem_overflow\<close> set the
  limits are \<open>SIZE_MAX\<close> and \<open>LONG_MAX\<close>, which no byte count and no entry count
  exceeds: the test of \<open>lookup_hash_entry\<close> never fires.
\<close>

theorem C5_hash_limits:
  assumes "0 \<le> work_mem cfg" "0 \<le> BLCKSZ cfg" "0 < hashentrysize"
  shows "(\<not> hashagg_mem_overflow cfg \<longrightarrow>
            init_hash_mem_limit cfg =
              (if work_mem cfg * 1024 > 2 * HASH_PARTITION_MEM cfg
               then work_mem cfg * 1024 - HASH_PARTITION_MEM cfg
               else work_mem cfg * 1024)
          \<and> init_hash_mem_limit cfg \<le> work_mem cfg * 1024
          \<and> work_mem cfg * 1024 \<le> 2 * init_hash_mem_limit cfg
          \<and> init_hash_ngroups_limit cfg (init_hash_mem_limit cfg) hashentrysize =
              max 1 \<lfloor>real_of_int (init_hash_mem_limit cfg) / hashentrysize\<rfloor>
          \<and> 1 \<le> init_hash_ngroups_limit cfg (init_hash_mem_limit cfg) hashentrysize)
       \<and> (hashagg_mem_overflow cfg \<longrightarrow>
            init_hash_mem_limit cfg = SIZE_MAX
          \<and> init_hash_ngroups_limit cfg (init_hash_mem_limit cfg) hashentrysize = LONG_MAX
          \<and> (\<forall>mem_current ngroups_current.
                mem_current \<le> SIZE_MAX \<and> ngroups_current \<le> LONG_MAX \<longrightarrow>
                \<not> hash_limit_reached mem_current ngroups_current (init_hash_mem_limit cfg)
                    (init_hash_ngroups_limit cfg (init_hash_mem_limit cfg) hashentrysize)))"
proof (intro conjI impI allI)
  assume no: "\<not> hashagg_mem_overflow cfg"
  have pm: "0 \<le> HASH_PARTITION_MEM cfg"
    using assms(2) by (simp add: HASH_PARTITION_MEM_def HASH_MIN_PARTITIONS_def)
  from no show "init_hash_mem_limit cfg =
              (if work_mem cfg * 1024 > 2 * HASH_PARTITION_MEM cfg
               then work_mem cfg * 1024 - HASH_PARTITION_MEM cfg
               else work_mem cfg * 1024)"
    by (simp add: init_hash_mem_limit_def)
  from no pm show "init_hash_mem_limit cfg \<le> work_mem cfg * 1024"
    by (simp add: init_hash_mem_limit_def)
  from no pm assms(1) show "work_mem cfg * 1024 \<le> 2 * init_hash_mem_limit cfg"
    by (simp add: init_hash_mem_limit_def)
  from no assms(3)
  show e: "init_hash_ngroups_limit cfg (init_hash_mem_limit cfg) hashentrysize =
              max 1 \<lfloor>real_of_int (init_hash_mem_limit cfg) / hashentrysize\<rfloor>"
    by (rule ngroups_limit_eq)
  show "1 \<le> init_hash_ngroups_limit cfg (init_hash_mem_limit cfg) hashentrysize"
    unfolding e by simp
next
  assume "hashagg_mem_overflow cfg"
  then show "init_hash_mem_limit cfg = SIZE_MAX"
    by (simp add: init_hash_mem_limit_def)
next
  assume "hashagg_mem_overflow cfg"
  then show "init_hash_ngroups_limit cfg (init_hash_mem_limit cfg) hashentrysize = LONG_MAX"
    by (simp add: init_hash_ngroups_limit_def)
next
  fix mem_current ngroups_current
  assume "hashagg_mem_overflow cfg"
    and "mem_current \<le> SIZE_MAX \<and> ngroups_current \<le> LONG_MAX"
  then show "\<not> hash_limit_reached mem_current ngroups_current (init_hash_mem_limit cfg)
                    (init_hash_ngroups_limit cfg (init_hash_mem_limit cfg) hashentrysize)"
    by (simp add: hash_limit_reached_def init_hash_mem_limit_def init_hash_ngroups_limit_def)
qed

theorem C5_hash_limits_witness:
  "0 \<le> work_mem spill_cfg \<and> 0 \<le> BLCKSZ spill_cfg \<and> (0 :: real) < 64
   \<and> \<not> hashagg_mem_overflow spill_cfg
   \<and> init_hash_mem_limit spill_cfg = 4161536
   \<and> init_hash_ngroups_limit spill_cfg (init_hash_mem_limit spill_cfg) 64 = 65024
   \<and> hashagg_mem_overflow overflow_cfg
   \<and> init_hash_mem_limit overflow_cfg = 18446744073709551615
   \<and> \<not> hash_limit_reached 5000000000 100000000 (init_hash_mem_limit overflow_cfg)
          (init_hash_ngroups_limit overflow_cfg (init_hash_mem_limit overflow_cfg) 64)"
proof -
  have a: "0 \<le> work_mem spill_cfg" "0 \<le> BLCKSZ spill_cfg" "(0 :: real) < 64"
    "\<not> hashagg_mem_overflow spill_cfg"
    by (simp_all add: spill_cfg_def)
  have b: "0 \<le> work_mem overflow_cfg" "0 \<le> BLCKSZ overflow_cfg"
    "hashagg_mem_overflow overflow_cfg"
    by (simp_all add: overflow_cfg_def)
  have l: "init_hash_mem_limit spill_cfg = 4161536"
    using C5_hash_limits [OF a(1,2,3)] a(4)
    by (simp add: spill_cfg_def HASH_PARTITION_MEM_def HASH_MIN_PARTITIONS_def)
  have n: "init_hash_ngroups_limit spill_cfg (init_hash_mem_limit spill_cfg) 64 = 65024"
    using C5_hash_limits [OF a(1,2,3)] a(4) by (simp add: l)
  have o: "init_hash_mem_limit overflow_cfg = 18446744073709551615"
    using C5_hash_limits [OF b(1,2) a(3)] b(3) by (simp add: SIZE_MAX_def)
  have "\<forall>mem_current ngroups_current.
          mem_current \<le> SIZE_MAX \<and> ngroups_current \<le> LONG_MAX \<longrightarrow>
          \<not> hash_limit_reached mem_current ngroups_current (init_hash_mem_limit overflow_cfg)
              (init_hash_ngroups_limit overflow_cfg (init_hash_mem_limit overflow_cfg) 64)"
    using C5_hash_limits [OF b(1,2) a(3)] b(3) by blast
  from this [rule_format, of 5000000000 100000000]
  have "\<not> hash_limit_reached 5000000000 100000000 (init_hash_mem_limit overflow_cfg)
          (init_hash_ngroups_limit overflow_cfg (init_hash_mem_limit overflow_cfg) 64)"
    by (simp add: SIZE_MAX_def LONG_MAX_def)
  with a b l n o show ?thesis by simp
qed

text \<open>
  Claim C5 as stated has the byte limit equal to \<open>work_mem\<close> minus the reservation and
  never below \<open>work_mem\<close>. With \<open>work_mem\<close> = 4 MB and 8 kB blocks the limit is
  4161536 bytes, which is below the 4194304 bytes of \<open>work_mem\<close>.
\<close>

theorem C5_never_below_counterexample:
  "\<not> hashagg_mem_overflow spill_cfg \<and>
   \<not> (init_hash_mem_limit spill_cfg = work_mem spill_cfg * 1024 - HASH_PARTITION_MEM spill_cfg \<and>
      init_hash_mem_limit spill_cfg \<ge> work_mem spill_cfg * 1024)"
  by (simp add: init_hash_mem_limit_def spill_cfg_def HASH_PARTITION_MEM_def
        HASH_MIN_PARTITIONS_def)

section \<open>Properties of the hash lookup\<close>

lemma lookup_no_new_groups:
  assumes "hash_no_new_groups st"
  shows "lookup_hash_entry M st key h =
           ((case (hashtables st ! current_set st) key of
               None \<Rightarrow> None | Some e \<Rightarrow> additional e), st)"
  using assms
  by (simp add: lookup_hash_entry_def LookupTupleHashEntryHash_def Let_def split: option.splits)

lemma lookup_sequence_no_new_groups:
  assumes "hash_no_new_groups st"
  shows "hashtables (snd (lookup_sequence M st reqs)) = hashtables st \<and>
         hash_no_new_groups (snd (lookup_sequence M st reqs)) \<and>
         hash_ngroups_current (snd (lookup_sequence M st reqs)) = hash_ngroups_current st \<and>
         list_all2 (\<lambda>(set_no, key, h) r.
              r = (case (hashtables st ! set_no) key of None \<Rightarrow> None | Some e \<Rightarrow> additional e))
           reqs (fst (lookup_sequence M st reqs))"
  using assms
proof (induction reqs arbitrary: st)
  case Nil
  then show ?case by simp
next
  case (Cons req reqs)
  obtain set_no key h where req: "req = (set_no, key, h)" by (cases req) auto
  let ?st = "select_current_set_hash st set_no"
  have flag: "hash_no_new_groups ?st"
    using Cons.prems by (simp add: select_current_set_hash_def)
  have tabs: "hashtables ?st = hashtables st" "current_set ?st = set_no"
    "hash_ngroups_current ?st = hash_ngroups_current st"
    by (simp_all add: select_current_set_hash_def)
  note l = lookup_no_new_groups [OF flag, of M key h]
  note ih = Cons.IH [OF flag]
  show ?case
    using ih by (simp add: req l tabs split_beta)
qed

lemma lookup_flag_iff:
  "hash_no_new_groups (snd (lookup_hash_entry M st key h)) \<longleftrightarrow>
     hash_no_new_groups st \<or>
     ((hashtables st ! current_set st) key = None \<and>
      hash_limit_reached (M (tables_with_new_entry st key)) (hash_ngroups_current st + 1)
        (hash_mem_limit st) (hash_ngroups_limit st))"
proof (cases "hash_no_new_groups st")
  case True
  then show ?thesis by (simp add: lookup_no_new_groups)
next
  case False
  show ?thesis
  proof (cases "(hashtables st ! current_set st) key")
    case None
    with False show ?thesis
      by (simp add: lookup_hash_entry_def LookupTupleHashEntryHash_def Let_def
            tables_with_new_entry_def enter_spill_mode_def hash_recompile_expressions_def)
  next
    case (Some e)
    with False show ?thesis
      by (simp add: lookup_hash_entry_def LookupTupleHashEntryHash_def Let_def)
  qed
qed


lemma lookup_evaltrans:
  "evaltrans (snd (lookup_hash_entry M st key h)) =
     (if \<not> hash_spilled st \<and> \<not> hash_no_new_groups st \<and>
         hash_no_new_groups (snd (lookup_hash_entry M st key h))
      then (evaltrans st)
             [(if aggstrategy st = AGG_HASHED then 0 else 1) :=
                Some (ExecBuildAggTrans (if aggstrategy st = AGG_HASHED then 0 else 1)
                        (aggstrategy st = AGG_MIXED) True True)]
      else evaltrans st)"
  unfolding lookup_flag_iff
  by (cases "(hashtables st ! current_set st) key")
     (simp_all add: lookup_hash_entry_def LookupTupleHashEntryHash_def Let_def
        tables_with_new_entry_def enter_spill_mode_def hash_recompile_expressions_def)

lemma lookup_hash_spilled:
  "hash_spilled (snd (lookup_hash_entry M st key h)) =
     (hash_spilled st \<or> (\<not> hash_no_new_groups st \<and>
         hash_no_new_groups (snd (lookup_hash_entry M st key h))))"
  unfolding lookup_flag_iff
  by (cases "(hashtables st ! current_set st) key")
     (auto simp add: lookup_hash_entry_def LookupTupleHashEntryHash_def Let_def
        tables_with_new_entry_def enter_spill_mode_def hash_recompile_expressions_def)

lemma lookup_hash_spills:
  "hash_spills (snd (lookup_hash_entry M st key h)) =
     (if \<not> hash_spilled st \<and> \<not> hash_no_new_groups st \<and>
         hash_no_new_groups (snd (lookup_hash_entry M st key h))
      then Some (replicate (num_hashes st) empty_spill) else hash_spills st)"
  unfolding lookup_flag_iff
  by (cases "(hashtables st ! current_set st) key")
     (simp_all add: lookup_hash_entry_def LookupTupleHashEntryHash_def Let_def
        tables_with_new_entry_def enter_spill_mode_def hash_recompile_expressions_def)

text \<open>
  Claim C2. A call of \<open>lookup_hash_entry\<close> leaves the flag \<open>hash_no_new_groups\<close>
  raised exactly when it was raised before or the call inserted a new entry and, with at
  least one entry counted, the allocated bytes exceed the byte limit or the number of
  entries exceeds the entry limit. Once the flag is raised, no lookup of any sequence of
  lookups changes a hash table: each returns the states of the entry that exists for its
  key, or null for the caller to spill the tuple, and the flag stays raised. The call that
  raises the flag for the first time (nothing had spilled before) rebuilds the transition
  expression of the hashing phase with the spill flag set; when something had spilled
  before, the expression is left as it is.
\<close>

theorem C2_no_new_groups:
  "(hash_no_new_groups (snd (lookup_hash_entry M st key h)) \<longleftrightarrow>
      hash_no_new_groups st \<or>
      ((hashtables st ! current_set st) key = None \<and>
       hash_limit_reached (M (tables_with_new_entry st key)) (hash_ngroups_current st + 1)
         (hash_mem_limit st) (hash_ngroups_limit st)))
   \<and> (hash_no_new_groups st \<longrightarrow>
        hashtables (snd (lookup_sequence M st reqs)) = hashtables st \<and>
        hash_no_new_groups (snd (lookup_sequence M st reqs)) \<and>
        list_all2 (\<lambda>(set_no, key, h) r.
              r = (case (hashtables st ! set_no) key of None \<Rightarrow> None | Some e \<Rightarrow> additional e))
           reqs (fst (lookup_sequence M st reqs)))
   \<and> (\<not> hash_spilled st \<and> \<not> hash_no_new_groups st \<and>
        hash_no_new_groups (snd (lookup_hash_entry M st key h)) \<longrightarrow>
        hash_spilled (snd (lookup_hash_entry M st key h)) \<and>
        evaltrans (snd (lookup_hash_entry M st key h)) =
          (evaltrans st)
             [(if aggstrategy st = AGG_HASHED then 0 else 1) :=
                Some \<lparr>for_phase = (if aggstrategy st = AGG_HASHED then 0 else 1),
                      dosort = (aggstrategy st = AGG_MIXED), dohash = True, spilled = True\<rparr>])
   \<and> (hash_spilled st \<longrightarrow>
        evaltrans (snd (lookup_hash_entry M st key h)) = evaltrans st)"
proof (intro conjI impI)
  show "hash_no_new_groups (snd (lookup_hash_entry M st key h)) \<longleftrightarrow>
      hash_no_new_groups st \<or>
      ((hashtables st ! current_set st) key = None \<and>
       hash_limit_reached (M (tables_with_new_entry st key)) (hash_ngroups_current st + 1)
         (hash_mem_limit st) (hash_ngroups_limit st))"
    by (rule lookup_flag_iff)
next
  assume f: "hash_no_new_groups st"
  note s = lookup_sequence_no_new_groups [OF f, of M reqs]
  from s show "hashtables (snd (lookup_sequence M st reqs)) = hashtables st" by simp
  from s show "hash_no_new_groups (snd (lookup_sequence M st reqs))" by simp
  from s show "list_all2 (\<lambda>(set_no, key, h) r.
              r = (case (hashtables st ! set_no) key of None \<Rightarrow> None | Some e \<Rightarrow> additional e))
           reqs (fst (lookup_sequence M st reqs))" by simp
next
  assume a: "\<not> hash_spilled st \<and> \<not> hash_no_new_groups st \<and>
        hash_no_new_groups (snd (lookup_hash_entry M st key h))"
  then show "hash_spilled (snd (lookup_hash_entry M st key h))"
    by (simp add: lookup_hash_spilled)
  from a show "evaltrans (snd (lookup_hash_entry M st key h)) =
          (evaltrans st)
             [(if aggstrategy st = AGG_HASHED then 0 else 1) :=
                Some \<lparr>for_phase = (if aggstrategy st = AGG_HASHED then 0 else 1),
                      dosort = (aggstrategy st = AGG_MIXED), dohash = True, spilled = True\<rparr>]"
    by (simp add: lookup_evaltrans ExecBuildAggTrans_def)
next
  assume "hash_spilled st"
  then show "evaltrans (snd (lookup_hash_entry M st key h)) = evaltrans st"
    by (simp add: lookup_evaltrans)
qed

lemma hash_state2_eq:
  "hash_state2 =
     \<lparr>aggstrategy = AGG_HASHED, num_hashes = 1, current_set = 0,
      agg_pertrans = [max_pertrans],
      hashtables = [[key1 \<mapsto> \<lparr>firstTuple = key1,
                                additional = Some [initialize_aggregate max_pertrans]\<rparr>,
                     key2 \<mapsto> \<lparr>firstTuple = key2,
                                additional = Some [initialize_aggregate max_pertrans]\<rparr>]],
      evaltrans = [Some (ExecBuildAggTrans 0 False True True)],
      hash_mem_limit = 1000, hash_ngroups_limit = 1, hash_mem_current = 0, hash_mem_peak = 0,
      hash_ngroups_current = 2, hash_no_new_groups = True, hash_spilled = True,
      hash_spills = Some [empty_spill]\<rparr>"
  by (simp add: hash_state2_def hash_state0_def lookup_hash_entry_def
        LookupTupleHashEntryHash_def select_current_set_hash_def Let_def entry_bytes_def
        hash_limit_reached_def enter_spill_mode_def hash_recompile_expressions_def
        key1_def key2_def datum_def)


lemma hash_state1_eq:
  "hash_state1 =
     \<lparr>aggstrategy = AGG_HASHED, num_hashes = 1, current_set = 0,
      agg_pertrans = [max_pertrans],
      hashtables = [[key1 \<mapsto> \<lparr>firstTuple = key1,
                                additional = Some [initialize_aggregate max_pertrans]\<rparr>]],
      evaltrans = [Some (ExecBuildAggTrans 0 False True False)],
      hash_mem_limit = 1000, hash_ngroups_limit = 1, hash_mem_current = 0, hash_mem_peak = 0,
      hash_ngroups_current = 1, hash_no_new_groups = False, hash_spilled = False,
      hash_spills = None\<rparr>"
  by (simp add: hash_state1_def hash_state0_def lookup_hash_entry_def
        LookupTupleHashEntryHash_def Let_def entry_bytes_def
        hash_limit_reached_def key1_def datum_def)

theorem C2_no_new_groups_witness:
  "\<not> hash_spilled hash_state1 \<and> \<not> hash_no_new_groups hash_state1
   \<and> hash_no_new_groups (snd (lookup_hash_entry entry_bytes hash_state1 key2 12))
   \<and> evaltrans (snd (lookup_hash_entry entry_bytes hash_state1 key2 12)) =
        [Some \<lparr>for_phase = 0, dosort = False, dohash = True, spilled = True\<rparr>]
   \<and> hash_no_new_groups hash_state2 \<and> hash_spilled hash_state2
   \<and> hashtables (snd (lookup_sequence entry_bytes hash_state2 [(0, key3, 13), (0, key1, 11)])) =
        hashtables hash_state2
   \<and> fst (lookup_sequence entry_bytes hash_state2 [(0, key3, 13), (0, key1, 11)]) =
        [None, Some [initialize_aggregate max_pertrans]]
   \<and> evaltrans (snd (lookup_hash_entry entry_bytes hash_state2 key3 13)) = evaltrans hash_state2"
proof -
  have s1: "\<not> hash_spilled hash_state1" "\<not> hash_no_new_groups hash_state1"
    "aggstrategy hash_state1 = AGG_HASHED"
    "evaltrans hash_state1 = [Some (ExecBuildAggTrans 0 False True False)]"
    by (simp_all add: hash_state1_eq)
  have raised: "hash_no_new_groups (snd (lookup_hash_entry entry_bytes hash_state1 key2 12))"
    using C2_no_new_groups [of entry_bytes hash_state1 key2 12 "[]"]
    by (simp add: hash_state1_eq hash_limit_reached_def entry_bytes_def key1_def key2_def
          datum_def)
  have recompiled: "evaltrans (snd (lookup_hash_entry entry_bytes hash_state1 key2 12)) =
        [Some \<lparr>for_phase = 0, dosort = False, dohash = True, spilled = True\<rparr>]"
    using C2_no_new_groups [of entry_bytes hash_state1 key2 12 "[]"] s1 raised by simp
  have s2: "hash_no_new_groups hash_state2" "hash_spilled hash_state2"
    by (simp_all add: hash_state2_eq)
  note seq = C2_no_new_groups [of entry_bytes hash_state2 key3 13 "[(0, key3, 13), (0, key1, 11)]"]
  have tabs: "hashtables (snd (lookup_sequence entry_bytes hash_state2
                 [(0, key3, 13), (0, key1, 11)])) = hashtables hash_state2"
    using seq s2 by blast
  have res: "fst (lookup_sequence entry_bytes hash_state2 [(0, key3, 13), (0, key1, 11)]) =
        [None, Some [initialize_aggregate max_pertrans]]"
    by (simp add: lookup_no_new_groups s2 select_current_set_hash_def split_beta)
       (simp add: hash_state2_eq key1_def key2_def key3_def datum_def)
  have same: "evaltrans (snd (lookup_hash_entry entry_bytes hash_state2 key3 13)) =
        evaltrans hash_state2"
    using seq s2 by blast
  from s1 raised recompiled s2 tabs res same show ?thesis by simp
qed

section \<open>Properties of the initialization\<close>

lemma find_pertrans_Cons:
  "find_compatible_pertrans pts share trfn trtype serfn deserfn iv ivn (t # transnos) =
     (if \<not> share then None
      else if pertrans_matches (pts ! t) trfn trtype serfn deserfn iv ivn then Some t
      else find_compatible_pertrans pts share trfn trtype serfn deserfn iv ivn transnos)"
  unfolding find_compatible_pertrans.simps Let_def pertrans_matches_def
  by (cases share) (simp_all, blast)

lemma find_pertrans_Some:
  "find_compatible_pertrans pts share trfn trtype serfn deserfn iv ivn transnos = Some t \<Longrightarrow>
   share \<and> t \<in> set transnos \<and> pertrans_matches (pts ! t) trfn trtype serfn deserfn iv ivn"
proof (induction transnos)
  case Nil
  then show ?case by simp
next
  case (Cons u transnos)
  note eq = Cons.prems [unfolded find_pertrans_Cons]
  show ?case
  proof (cases share)
    case False
    with eq show ?thesis by simp
  next
    case share: True
    show ?thesis
    proof (cases "pertrans_matches (pts ! u) trfn trtype serfn deserfn iv ivn")
      case True
      with eq share show ?thesis by simp
    next
      case False
      with eq share
      have "find_compatible_pertrans pts share trfn trtype serfn deserfn iv ivn transnos = Some t"
        by simp
      from Cons.IH [OF this] show ?thesis by simp
    qed
  qed
qed

lemma find_pertrans_None:
  "find_compatible_pertrans pts share trfn trtype serfn deserfn iv ivn transnos = None \<longleftrightarrow>
   \<not> share \<or> (\<forall>t\<in>set transnos. \<not> pertrans_matches (pts ! t) trfn trtype serfn deserfn iv ivn)"
proof (induction transnos)
  case Nil
  then show ?case by simp
next
  case (Cons u transnos)
  show ?case
  proof (cases share)
    case False
    then show ?thesis by (simp add: find_pertrans_Cons del: find_compatible_pertrans.simps(2))
  next
    case True
    with Cons.IH show ?thesis
      by (cases "pertrans_matches (pts ! u) trfn trtype serfn deserfn iv ivn")
         (simp_all add: find_pertrans_Cons del: find_compatible_pertrans.simps(2))
  qed
qed

lemma peragg_loop_candidates:
  "peragg_loop newagg ps k acc = (r, l) \<Longrightarrow> t \<in> set l \<Longrightarrow>
   t \<in> set acc \<or> (\<exists>p\<in>set ps. transno p = t \<and> shareable p \<and> same_inputs newagg (aggref p))"
  by (induction newagg ps k acc rule: peragg_loop.induct)
     (auto split: if_splits)

lemma find_peragg_candidates:
  assumes "find_compatible_peragg cat newagg ps = (r, l)" "t \<in> set l"
  shows "\<exists>i < length ps. transno (ps ! i) = t \<and> shareable (ps ! i)"
proof -
  from assms have "\<exists>p\<in>set ps. transno p = t \<and> shareable p \<and> same_inputs newagg (aggref p)"
    using peragg_loop_candidates [of newagg ps 0 "[]" r l t]
    by (auto simp: find_compatible_peragg_def split: if_splits)
  then show ?thesis by (auto simp: in_set_conv_nth)
qed


lemma lookup_functions_shareable:
  assumes "lookup_aggregate_functions cat split agg = Inr fns"
  shows "\<exists>aggform. pg_aggregate cat (aggfnoid agg) = Some aggform \<and>
           l_shareable fns = (aggfinalmodify aggform \<noteq> AGGMODIFY_READ_WRITE \<or>
                              l_finalfn_oid fns = InvalidOid)"
proof (cases "pg_aggregate cat (aggfnoid agg)")
  case None
  with assms show ?thesis by (simp add: lookup_aggregate_functions_def)
next
  case (Some aggform)
  let ?finfn = "if DO_AGGSPLIT_SKIPFINAL split then InvalidOid else aggfinalfn aggform"
  from assms obtain aggOwner where "pg_proc_owner cat (aggfnoid agg) = Some aggOwner"
    by (cases "pg_proc_owner cat (aggfnoid agg)")
       (simp_all add: lookup_aggregate_functions_def Some Let_def split: if_split_asm)
  with assms have "l_shareable fns = (aggfinalmodify aggform \<noteq> AGGMODIFY_READ_WRITE \<or>
                              ?finfn = InvalidOid) \<and> l_finalfn_oid fns = ?finfn"
    by (simp add: lookup_aggregate_functions_def Some Let_def
          split: if_split_asm option.split_asm)
       ((erule subst)?, simp)+
  with Some show ?thesis by simp
qed

lemma bind_pertrans_shape:
  assumes "bind_pertrans cat split st agg cands fns = Inr st'"
  shows "\<exists>p. peraggs st' = peraggs st @ [p] \<and> aggref p = agg \<and>
           aggnos st' = aggnos st @ [length (peraggs st)] \<and>
           shareable p = l_shareable fns \<and> finalfn_oid p = l_finalfn_oid fns \<and>
           ((transno p = length (pertranss st) \<and> (\<exists>pt. pertranss st' = pertranss st @ [pt])) \<or>
            (transno p \<in> set cands \<and> shareable p \<and>
             pertranss st' = (pertranss st)
               [transno p := (pertranss st ! transno p)\<lparr>aggshared := True\<rparr>]))"
proof (cases "find_compatible_pertrans (pertranss st) (l_shareable fns) (l_transfn_oid fns)
                (aggtranstype agg) (l_serialfn_oid fns) (l_deserialfn_oid fns) (l_initValue fns)
                (l_initValueIsNull fns) cands")
  case None
  with assms show ?thesis
    by (auto simp: bind_pertrans_def Let_def split: sum.splits)
next
  case (Some t)
  from find_pertrans_Some [OF Some] have "l_shareable fns" "t \<in> set cands" by simp_all
  with assms Some show ?thesis
    by (auto simp: bind_pertrans_def Let_def)
qed

lemma init_new_peragg_shape:
  assumes "init_new_peragg cat split st agg cands = Inr st'"
  shows "\<exists>p. peraggs st' = peraggs st @ [p] \<and> aggref p = agg \<and>
           aggnos st' = aggnos st @ [length (peraggs st)] \<and>
           (\<exists>aggform. pg_aggregate cat (aggfnoid agg) = Some aggform \<and>
              shareable p = (aggfinalmodify aggform \<noteq> AGGMODIFY_READ_WRITE \<or>
                             finalfn_oid p = InvalidOid)) \<and>
           ((transno p = length (pertranss st) \<and> (\<exists>pt. pertranss st' = pertranss st @ [pt])) \<or>
            (transno p \<in> set cands \<and> shareable p \<and>
             pertranss st' = (pertranss st)
               [transno p := (pertranss st ! transno p)\<lparr>aggshared := True\<rparr>]))"
proof -
  from assms obtain fns where f: "lookup_aggregate_functions cat split agg = Inr fns"
    and b: "bind_pertrans cat split st agg cands fns = Inr st'"
    by (auto simp: init_new_peragg_def split: sum.splits)
  from bind_pertrans_shape [OF b] obtain p where p:
    "peraggs st' = peraggs st @ [p]" "aggref p = agg"
    "aggnos st' = aggnos st @ [length (peraggs st)]"
    "shareable p = l_shareable fns" "finalfn_oid p = l_finalfn_oid fns"
    "(transno p = length (pertranss st) \<and> (\<exists>pt. pertranss st' = pertranss st @ [pt])) \<or>
     (transno p \<in> set cands \<and> shareable p \<and>
      pertranss st' = (pertranss st)
        [transno p := (pertranss st ! transno p)\<lparr>aggshared := True\<rparr>])"
    by blast
  from lookup_functions_shareable [OF f] p(4,5)
  have "\<exists>aggform. pg_aggregate cat (aggfnoid agg) = Some aggform \<and>
              shareable p = (aggfinalmodify aggform \<noteq> AGGMODIFY_READ_WRITE \<or>
                             finalfn_oid p = InvalidOid)"
    by simp
  with p(1,2,3,6) show ?thesis by blast
qed

lemma init_inv_extend:
  assumes inv: "init_inv st"
    and ps: "peraggs st' = peraggs st @ [p]"
    and cases: "(transno p = length (pertranss st) \<and> length (pertranss st') = Suc (length (pertranss st))) \<or>
            (shareable p \<and> length (pertranss st') = length (pertranss st) \<and>
             (\<exists>k < length (peraggs st). transno (peraggs st ! k) = transno p \<and>
                 shareable (peraggs st ! k)))"
  shows "init_inv st'"
proof -
  let ?n = "length (peraggs st)"
  have old: "\<And>i. i < ?n \<Longrightarrow> peraggs st' ! i = peraggs st ! i"
    by (simp add: ps nth_append)
  have new: "peraggs st' ! ?n = p" by (simp add: ps)
  have len: "length (peraggs st') = Suc ?n" by (simp add: ps)
  from inv have i1: "\<And>i. i < ?n \<Longrightarrow> transno (peraggs st ! i) < length (pertranss st)"
    and i2: "\<And>i j. i < ?n \<Longrightarrow> j < ?n \<Longrightarrow> i \<noteq> j \<Longrightarrow>
               transno (peraggs st ! i) = transno (peraggs st ! j) \<Longrightarrow>
               shareable (peraggs st ! i) \<and> shareable (peraggs st ! j)"
    unfolding init_inv_def by blast+
  have share_old: "shareable (peraggs st ! i) \<and> shareable p"
    if i: "i < ?n" and eq: "transno (peraggs st ! i) = transno p" for i
  proof -
    from cases show ?thesis
    proof
      assume "transno p = length (pertranss st) \<and> length (pertranss st') = Suc (length (pertranss st))"
      with i1 [OF i] eq show ?thesis by simp
    next
      assume c: "shareable p \<and> length (pertranss st') = length (pertranss st) \<and>
             (\<exists>k < length (peraggs st). transno (peraggs st ! k) = transno p \<and>
                 shareable (peraggs st ! k))"
      then obtain k where k: "k < ?n" "transno (peraggs st ! k) = transno p"
        "shareable (peraggs st ! k)" by blast
      show ?thesis
      proof (cases "i = k")
        case True
        with k c show ?thesis by simp
      next
        case False
        with i2 [OF i k(1)] eq k(2) c show ?thesis by simp
      qed
    qed
  qed
  have t_new: "transno p < length (pertranss st')"
    using cases
  proof
    assume "transno p = length (pertranss st) \<and>
            length (pertranss st') = Suc (length (pertranss st))"
    then show ?thesis by simp
  next
    assume "shareable p \<and> length (pertranss st') = length (pertranss st) \<and>
             (\<exists>k < length (peraggs st). transno (peraggs st ! k) = transno p \<and>
                 shareable (peraggs st ! k))"
    then obtain k where "k < ?n" "transno (peraggs st ! k) = transno p"
      and l: "length (pertranss st') = length (pertranss st)" by blast
    with i1 [of k] show ?thesis by simp
  qed
  have len_ge: "length (pertranss st) \<le> length (pertranss st')"
    using cases by auto
  show ?thesis
    unfolding init_inv_def
  proof (rule conjI; intro allI impI)
    fix i assume "i < length (peraggs st')"
    then consider "i < ?n" | "i = ?n" using len by fastforce
    then show "transno (peraggs st' ! i) < length (pertranss st')"
    proof cases
      case 1
      with i1 [OF 1] len_ge show ?thesis by (simp add: old)
    next
      case 2
      with t_new show ?thesis by (simp add: new)
    qed
  next
    fix i j
    assume i: "i < length (peraggs st')" and j: "j < length (peraggs st')"
      and h: "i \<noteq> j \<and> transno (peraggs st' ! i) = transno (peraggs st' ! j)"
    from i j h len consider "i < ?n" "j < ?n" | "i < ?n" "j = ?n" | "i = ?n" "j < ?n"
      by fastforce
    then show "shareable (peraggs st' ! i) \<and> shareable (peraggs st' ! j)"
    proof cases
      case 1
      with i2 [OF 1] h show ?thesis by (simp add: old)
    next
      case 2
      with share_old [OF 2(1)] h show ?thesis by (simp add: old new)
    next
      case 3
      with share_old [OF 3(2)] h show ?thesis by (simp add: old new)
    qed
  qed
qed

lemma init_aggref_inv:
  assumes inv: "init_inv st" and step: "init_aggref cat split st agg = Inr st'"
  shows "init_inv st'"
proof -
  obtain r cands where f: "find_compatible_peragg cat agg (peraggs st) = (r, cands)"
    by (cases "find_compatible_peragg cat agg (peraggs st)") auto
  show ?thesis
  proof (cases r)
    case (Some existing_aggno)
    with step f have "st' = st\<lparr>aggnos := aggnos st @ [existing_aggno]\<rparr>"
      by (simp add: init_aggref_def)
    with inv show ?thesis by (simp add: init_inv_def)
  next
    case None
    with step f have n: "init_new_peragg cat split st agg cands = Inr st'"
      by (simp add: init_aggref_def)
    from init_new_peragg_shape [OF n] obtain p where
      ps: "peraggs st' = peraggs st @ [p]" and
      c: "(transno p = length (pertranss st) \<and> (\<exists>pt. pertranss st' = pertranss st @ [pt])) \<or>
          (transno p \<in> set cands \<and> shareable p \<and>
           pertranss st' = (pertranss st)
             [transno p := (pertranss st ! transno p)\<lparr>aggshared := True\<rparr>])"
      by blast
    from c have "(transno p = length (pertranss st) \<and>
                  length (pertranss st') = Suc (length (pertranss st))) \<or>
            (shareable p \<and> length (pertranss st') = length (pertranss st) \<and>
             (\<exists>k < length (peraggs st). transno (peraggs st ! k) = transno p \<and>
                 shareable (peraggs st ! k)))"
    proof
      assume "transno p = length (pertranss st) \<and> (\<exists>pt. pertranss st' = pertranss st @ [pt])"
      then show ?thesis by auto
    next
      assume r: "transno p \<in> set cands \<and> shareable p \<and>
           pertranss st' = (pertranss st)
             [transno p := (pertranss st ! transno p)\<lparr>aggshared := True\<rparr>]"
      with find_peragg_candidates [OF f, of "transno p"] show ?thesis by auto
    qed
    with inv ps show ?thesis by (rule init_inv_extend)
  qed
qed

lemma init_aggrefs_inv:
  "init_inv st \<Longrightarrow> init_aggrefs cat split st aggs = Inr st' \<Longrightarrow> init_inv st'"
proof (induction aggs arbitrary: st)
  case Nil
  then show ?case by simp
next
  case (Cons agg aggs)
  from Cons.prems(2) obtain st1 where s1: "init_aggref cat split st agg = Inr st1"
    and rest: "init_aggrefs cat split st1 aggs = Inr st'"
    by (auto split: sum.splits)
  from Cons.prems(1) s1 have "init_inv st1" by (rule init_aggref_inv)
  from this rest show ?case by (rule Cons.IH)
qed

lemma init_inv0: "init_inv init_state0"
  by (simp add: init_inv_def init_state0_def)

lemma init_aggref_shareable:
  assumes "shareable_ok cat st" "init_aggref cat split st agg = Inr st'"
  shows "shareable_ok cat st'"
proof -
  obtain r cands where f: "find_compatible_peragg cat agg (peraggs st) = (r, cands)"
    by (cases "find_compatible_peragg cat agg (peraggs st)") auto
  show ?thesis
  proof (cases r)
    case (Some existing_aggno)
    with assms f show ?thesis by (auto simp: init_aggref_def shareable_ok_def)
  next
    case None
    with assms f have n: "init_new_peragg cat split st agg cands = Inr st'"
      by (simp add: init_aggref_def)
    from init_new_peragg_shape [OF n] assms(1) show ?thesis
      by (auto simp: shareable_ok_def)
  qed
qed

lemma init_aggrefs_shareable:
  "shareable_ok cat st \<Longrightarrow> init_aggrefs cat split st aggs = Inr st' \<Longrightarrow> shareable_ok cat st'"
proof (induction aggs arbitrary: st)
  case Nil
  then show ?case by simp
next
  case (Cons agg aggs)
  from Cons.prems(2) obtain st1 where s1: "init_aggref cat split st agg = Inr st1"
    and rest: "init_aggrefs cat split st1 aggs = Inr st'"
    by (auto split: sum.splits)
  from Cons.prems(1) s1 have "shareable_ok cat st1" by (rule init_aggref_shareable)
  from this rest show ?case by (rule Cons.IH)
qed


lemma bind_pertrans_reuse_iff:
  assumes b: "bind_pertrans cat split st agg cands fns = Inr st'"
    and valid: "\<forall>t\<in>set cands. t < length (pertranss st)"
  shows "transno (last (peraggs st')) < length (pertranss st) \<longleftrightarrow>
         l_shareable fns \<and>
         (\<exists>t\<in>set cands. pertrans_matches (pertranss st ! t) (l_transfn_oid fns)
            (aggtranstype agg) (l_serialfn_oid fns) (l_deserialfn_oid fns) (l_initValue fns)
            (l_initValueIsNull fns))"
proof (cases "find_compatible_pertrans (pertranss st) (l_shareable fns) (l_transfn_oid fns)
                (aggtranstype agg) (l_serialfn_oid fns) (l_deserialfn_oid fns) (l_initValue fns)
                (l_initValueIsNull fns) cands")
  case None
  with b have "transno (last (peraggs st')) = length (pertranss st)"
    by (auto simp: bind_pertrans_def Let_def split: sum.splits)
  moreover from None have "\<not> (l_shareable fns \<and>
         (\<exists>t\<in>set cands. pertrans_matches (pertranss st ! t) (l_transfn_oid fns)
            (aggtranstype agg) (l_serialfn_oid fns) (l_deserialfn_oid fns) (l_initValue fns)
            (l_initValueIsNull fns)))"
    unfolding find_pertrans_None by blast
  ultimately show ?thesis by simp
next
  case (Some t)
  note f = find_pertrans_Some [OF Some]
  from b Some have "transno (last (peraggs st')) = t"
    by (auto simp: bind_pertrans_def Let_def)
  with f valid show ?thesis by auto
qed

lemma peragg_loop_None:
  "peragg_loop newagg ps k acc = (None, l) \<Longrightarrow>
   set l = set acc \<union> {transno p | p. p \<in> set ps \<and> shareable p \<and> same_inputs newagg (aggref p)}
   \<and> (\<forall>p\<in>set ps. \<not> (same_inputs newagg (aggref p) \<and> same_function newagg (aggref p)))"
proof (induction newagg ps k acc rule: peragg_loop.induct)
  case (1 newagg aggno same_input_transnos)
  then show ?case by simp
next
  case (2 newagg peragg rest aggno same_input_transnos)
  show ?case
  proof (cases "same_inputs newagg (aggref peragg)")
    case False
    with 2 show ?thesis by auto
  next
    case si: True
    show ?thesis
    proof (cases "same_function newagg (aggref peragg)")
      case True
      with si "2.prems" show ?thesis by simp
    next
      case sf: False
      show ?thesis
      proof (cases "shareable peragg")
        case True
        with si sf "2.prems" "2.IH"(2) show ?thesis by auto
      next
        case False
        with si sf "2.prems" "2.IH"(3) show ?thesis by auto
      qed
    qed
  qed
qed

lemma find_peragg_None:
  assumes "find_compatible_peragg cat newagg ps = (None, cands)"
    "\<not> contain_volatile_functions cat newagg"
  shows "set cands = {transno p | p. p \<in> set ps \<and> shareable p \<and> same_inputs newagg (aggref p)}"
  using assms peragg_loop_None [of newagg ps 0 "[]" cands]
  by (simp add: find_compatible_peragg_def)

lemma find_peragg_volatile:
  "contain_volatile_functions cat newagg \<Longrightarrow> find_compatible_peragg cat newagg ps = (None, [])"
  by (simp add: find_compatible_peragg_def)

text \<open>
  Claim C9. When the candidates are consulted, \<open>find_compatible_pertrans\<close> returns a
  transition state exactly when sharing is permitted for the new aggregate and a candidate
  matches in
  transition function, transition type, serialization and deserialization functions and
  initial value with its null flag; what it returns is such a candidate. In
  \<open>ExecInitAgg\<close> the new per-agg struct is bound to an existing transition state exactly
  in that case, and to a new one otherwise. The candidates are the transition states of
  the earlier per-agg structs that permit sharing and have the same inputs as the new
  reference; there is none when the reference contains a volatile function. After a
  successful initialization every \<open>shareable\<close> flag says that the final function is
  absent or not read-write, and the transition state of a per-agg struct that does not
  permit sharing is bound to no other per-agg struct.
\<close>

theorem C9_pertrans_sharing:
  "((\<exists>t. find_compatible_pertrans pts share trfn trtype serfn deserfn iv ivn transnos = Some t)
      \<longleftrightarrow> share \<and>
          (\<exists>t\<in>set transnos. pertrans_matches (pts ! t) trfn trtype serfn deserfn iv ivn))
   \<and> (find_compatible_pertrans pts share trfn trtype serfn deserfn iv ivn transnos = Some u
        \<longrightarrow> u \<in> set transnos \<and> pertrans_matches (pts ! u) trfn trtype serfn deserfn iv ivn)
   \<and> (bind_pertrans cat split st0 agg cands fns = Inr st1 \<and>
       (\<forall>t\<in>set cands. t < length (pertranss st0)) \<longrightarrow>
        (transno (last (peraggs st1)) < length (pertranss st0) \<longleftrightarrow>
           l_shareable fns \<and>
           (\<exists>t\<in>set cands. pertrans_matches (pertranss st0 ! t) (l_transfn_oid fns)
              (aggtranstype agg) (l_serialfn_oid fns) (l_deserialfn_oid fns) (l_initValue fns)
              (l_initValueIsNull fns))))
   \<and> (find_compatible_peragg cat agg ps = (None, cands) \<and>
       \<not> contain_volatile_functions cat agg \<longrightarrow>
        set cands =
          {transno p | p. p \<in> set ps \<and> shareable p \<and> same_inputs agg (aggref p)})
   \<and> (contain_volatile_functions cat agg \<longrightarrow>
        find_compatible_peragg cat agg ps = (None, []))
   \<and> (init_aggrefs cat split init_state0 aggs = Inr st \<longrightarrow>
        shareable_ok cat st \<and>
        (\<forall>i < length (peraggs st). \<not> shareable (peraggs st ! i) \<longrightarrow>
           (\<forall>j < length (peraggs st).
              transno (peraggs st ! j) = transno (peraggs st ! i) \<longrightarrow> j = i)))"
proof (intro conjI impI)
  show "(\<exists>t. find_compatible_pertrans pts share trfn trtype serfn deserfn iv ivn transnos = Some t)
      \<longleftrightarrow> share \<and>
          (\<exists>t\<in>set transnos. pertrans_matches (pts ! t) trfn trtype serfn deserfn iv ivn)"
    using find_pertrans_None [of pts share trfn trtype serfn deserfn iv ivn transnos]
    by (cases "find_compatible_pertrans pts share trfn trtype serfn deserfn iv ivn transnos")
       auto
next
  assume "find_compatible_pertrans pts share trfn trtype serfn deserfn iv ivn transnos = Some u"
  from find_pertrans_Some [OF this]
  show "u \<in> set transnos" "pertrans_matches (pts ! u) trfn trtype serfn deserfn iv ivn"
    by simp_all
next
  assume "bind_pertrans cat split st0 agg cands fns = Inr st1 \<and>
       (\<forall>t\<in>set cands. t < length (pertranss st0))"
  then show "transno (last (peraggs st1)) < length (pertranss st0) \<longleftrightarrow>
           l_shareable fns \<and>
           (\<exists>t\<in>set cands. pertrans_matches (pertranss st0 ! t) (l_transfn_oid fns)
              (aggtranstype agg) (l_serialfn_oid fns) (l_deserialfn_oid fns) (l_initValue fns)
              (l_initValueIsNull fns))"
    using bind_pertrans_reuse_iff by blast
next
  assume "find_compatible_peragg cat agg ps = (None, cands) \<and>
       \<not> contain_volatile_functions cat agg"
  then show "set cands =
          {transno p | p. p \<in> set ps \<and> shareable p \<and> same_inputs agg (aggref p)}"
    using find_peragg_None by blast
next
  assume "contain_volatile_functions cat agg"
  then show "find_compatible_peragg cat agg ps = (None, [])"
    by (rule find_peragg_volatile)
next
  assume a: "init_aggrefs cat split init_state0 aggs = Inr st"
  have "shareable_ok cat init_state0" by (simp add: shareable_ok_def init_state0_def)
  from this a show "shareable_ok cat st" by (rule init_aggrefs_shareable)
  from init_inv0 a have inv: "init_inv st" by (rule init_aggrefs_inv)
  show "\<forall>i < length (peraggs st). \<not> shareable (peraggs st ! i) \<longrightarrow>
           (\<forall>j < length (peraggs st).
              transno (peraggs st ! j) = transno (peraggs st ! i) \<longrightarrow> j = i)"
  proof (intro allI impI)
    fix i j
    assume i: "i < length (peraggs st)" and ns: "\<not> shareable (peraggs st ! i)"
      and j: "j < length (peraggs st)"
      and eq: "transno (peraggs st ! j) = transno (peraggs st ! i)"
    show "j = i"
    proof (rule ccontr)
      assume "j \<noteq> i"
      with inv i j eq have "shareable (peraggs st ! i)"
        unfolding init_inv_def by metis
      with ns show False by simp
    qed
  qed
qed

lemma sample_init_eq:
  "init_aggrefs sample_catalog no_split init_state0 sample_aggrefs = Inr sample_init"
  by code_simp


lemma sample_init1_eq:
  "init_aggrefs sample_catalog no_split init_state0 [sample_aggref 10] = Inr sample_init1"
  by code_simp

lemma sample_fns_eq:
  "lookup_aggregate_functions sample_catalog no_split (sample_aggref 11) = Inr sample_fns"
  by code_simp

lemma sample_bind_eq:
  "bind_pertrans sample_catalog no_split sample_init1 (sample_aggref 11) [0] sample_fns =
     Inr \<lparr>peraggs = peraggs sample_init1 @
              [\<lparr>aggref = sample_aggref 11, transno = 0, finalfn_oid = 201, shareable = True\<rparr>],
          pertranss = [(pertranss sample_init1 ! 0)\<lparr>aggshared := True\<rparr>],
          aggnos = [0, 1]\<rparr>"
  by code_simp

theorem C9_pertrans_sharing_witness:
  "init_aggrefs sample_catalog no_split init_state0 sample_aggrefs = Inr sample_init
   \<and> \<not> shareable (peraggs sample_init ! 2)
   \<and> transno (peraggs sample_init ! 0) \<noteq> transno (peraggs sample_init ! 2)
   \<and> transno (peraggs sample_init ! 1) \<noteq> transno (peraggs sample_init ! 2)
   \<and> transno (peraggs sample_init ! 0) = transno (peraggs sample_init ! 1)
   \<and> find_compatible_pertrans (pertranss sample_init1) True 100 20 0 0 0 True [0] = Some 0
   \<and> pertrans_matches (pertranss sample_init1 ! 0) 100 20 0 0 0 True
   \<and> find_compatible_pertrans (pertranss sample_init1) False 100 20 0 0 0 True [0] = None
   \<and> transno (last (peraggs (projr
         (bind_pertrans sample_catalog no_split sample_init1 (sample_aggref 11) [0] sample_fns))))
       < length (pertranss sample_init1)"
proof -
  note t = C9_pertrans_sharing [of "pertranss sample_init1" True 100 20 0 0 0 True "[0]" 0
      sample_catalog no_split sample_init1 "sample_aggref 11" "[0]" sample_fns
      "projr (bind_pertrans sample_catalog no_split sample_init1 (sample_aggref 11) [0] sample_fns)"
      "peraggs sample_init1" sample_aggrefs sample_init]
  have m: "pertrans_matches (pertranss sample_init1 ! 0) 100 20 0 0 0 True"
    by (simp add: pertrans_matches_def sample_init1_def)
  have f: "find_compatible_pertrans (pertranss sample_init1) True 100 20 0 0 0 True [0] = Some 0"
    using t m by (simp add: find_pertrans_Cons del: find_compatible_pertrans.simps(2))
  have n: "find_compatible_pertrans (pertranss sample_init1) False 100 20 0 0 0 True [0] = None"
    by simp
  have b: "transno (last (peraggs (projr
         (bind_pertrans sample_catalog no_split sample_init1 (sample_aggref 11) [0] sample_fns))))
       < length (pertranss sample_init1)"
    unfolding sample_bind_eq by (simp add: sample_init1_def)
  have i: "\<not> shareable (peraggs sample_init ! 2)"
    "transno (peraggs sample_init ! 0) \<noteq> transno (peraggs sample_init ! 2)"
    "transno (peraggs sample_init ! 1) \<noteq> transno (peraggs sample_init ! 2)"
    "transno (peraggs sample_init ! 0) = transno (peraggs sample_init ! 1)"
    using t sample_init_eq by (simp_all add: sample_init_def)
  from sample_init_eq i f m n b show ?thesis by simp
qed



section \<open>Properties of the plain and sorted aggregation\<close>


lemma fetch_nothing:
  "outer_input st = [] \<Longrightarrow> sort_in st = None \<or> sort_in st = Some [] \<Longrightarrow>
   fetch_input_tuple st = (None, st)"
  by (auto simp: fetch_input_tuple_def)

lemma reset_sets_replicate: "reset_sets n (replicate m []) = replicate m []"
proof (induction n arbitrary: m)
  case 0 show ?case by simp
next
  case (Suc n) then show ?case by (cases m) simp_all
qed

lemma skip_nonempty_sets_bounds:
  "pset \<le> nsets \<Longrightarrow> length lengths = nsets \<Longrightarrow>
   pset \<le> skip_nonempty_sets lengths nsets pset \<and>
   skip_nonempty_sets lengths nsets pset \<le> nsets \<and>
   (\<forall>i. pset \<le> i \<and> i < skip_nonempty_sets lengths nsets pset \<longrightarrow> lengths ! i > 0) \<and>
   (skip_nonempty_sets lengths nsets pset < nsets \<longrightarrow>
      lengths ! skip_nonempty_sets lengths nsets pset = 0)"
proof (induction lengths nsets pset rule: skip_nonempty_sets.induct)
  case (1 lengths nsets pset)
  consider (stop) "\<not> (pset < length lengths \<and> lengths ! pset > 0)"
    | (last) "pset < length lengths" "lengths ! pset > 0" "Suc pset \<ge> nsets"
    | (step) "pset < length lengths" "lengths ! pset > 0" "\<not> Suc pset \<ge> nsets"
    by blast
  then show ?case
  proof cases
    case stop
    then have e: "skip_nonempty_sets lengths nsets pset = pset"
      by (subst skip_nonempty_sets.simps) auto
    from stop 1(2,3) show ?thesis unfolding e by auto
  next
    case last
    then have e: "skip_nonempty_sets lengths nsets pset = Suc pset"
      by (subst skip_nonempty_sets.simps) auto
    from last 1(2,3) have "Suc pset = nsets" by simp
    with last show ?thesis unfolding e by (auto simp: less_Suc_eq)
  next
    case step
    then have e: "skip_nonempty_sets lengths nsets pset =
                  skip_nonempty_sets lengths nsets (Suc pset)"
      by (subst skip_nonempty_sets.simps) auto
    from step have c: "pset < length lengths \<and> lengths ! pset > 0" by simp
    from step have s: "Suc pset \<le> nsets" by simp
    note ih = 1(1)[OF c step(3) s 1(3)]
    have "\<forall>i. pset \<le> i \<and> i < skip_nonempty_sets lengths nsets (Suc pset) \<longrightarrow> lengths ! i > 0"
    proof (intro allI impI)
      fix i assume a: "pset \<le> i \<and> i < skip_nonempty_sets lengths nsets (Suc pset)"
      show "lengths ! i > 0"
      proof (cases "i = pset")
        case True with step show ?thesis by simp
      next
        case False with a have "Suc pset \<le> i" by simp
        with a ih show ?thesis by blast
      qed
    qed
    with ih show ?thesis unfolding e by auto
  qed
qed


lemma first_empty_set_eq:
  "numsets ph > 0 \<Longrightarrow>
   first_empty_set ph = skip_nonempty_sets (gset_lengths ph) (numsets ph) 0"
proof -
  assume "numsets ph > 0"
  then have "max (numsets ph) 1 = numsets ph" by simp
  then show ?thesis by (simp only: first_empty_set_def)
qed

lemma first_empty_set_bounds:
  assumes "grouping_sets_phase maxsets ph"
  shows "first_empty_set ph \<le> numsets ph"
    and "first_empty_set ph < numsets ph \<Longrightarrow> gset_lengths ph ! first_empty_set ph = 0"
    and "i < first_empty_set ph \<Longrightarrow> gset_lengths ph ! i > 0"
proof -
  from assms have n: "numsets ph > 0" and l: "length (gset_lengths ph) = numsets ph"
    by (auto simp: grouping_sets_phase_def)
  have "0 \<le> numsets ph" by simp
  note b = skip_nonempty_sets_bounds[OF this l, folded first_empty_set_eq[OF n]]
  from b show "first_empty_set ph \<le> numsets ph" by simp
  from b show "first_empty_set ph < numsets ph \<Longrightarrow> gset_lengths ph ! first_empty_set ph = 0"
    by simp
  from b show "i < first_empty_set ph \<Longrightarrow> gset_lengths ph ! i > 0"
    by simp
qed

lemma entry_locals_grouping:
  "numsets (phases st ! current_phase st) > 0 \<Longrightarrow>
   entry_locals st = \<lparr>hasGroupingSets = True,
                      numGroupingSets = numsets (phases st ! current_phase st),
                      node = current_phase st\<rparr>"
  by (simp add: entry_locals_def phase_sets_def max_def)

lemma project_initial_row:
  assumes "out_outertuple st = None" and "pergroups st = replicate m []"
    and "0 \<le> projected_set st" and "nat (projected_set st) < m"
  shows "project_group qual l st =
           (if qual (initial_row (current_phase st) (nat (projected_set st)))
            then Return (ResultRow (initial_row (current_phase st) (nat (projected_set st)))) st
            else Continue l st)"
  using assms by (simp add: project_group_def initial_row_def Let_def)

lemma turn_start:
  assumes "\<not> input_done st" and "projected_set st = - 1" and "grp_firstTuple st = None"
    and "outer_input st = []" and "sort_in st = None \<or> sort_in st = Some []"
    and "hasGroupingSets l" and "numGroupingSets l > 0"
    and "k = skip_nonempty_sets (gset_lengths (phases st ! current_phase st)) (numGroupingSets l) 0"
  shows "direct_turn qual l st =
           (if numGroupingSets l \<le> k
            then Continue l (st\<lparr>projected_set := int k, input_done := True\<rparr>)
            else project_group qual l
                   (st\<lparr>projected_set := int k, input_done := True,
                       pergroups := reset_sets (numGroupingSets l) (pergroups st),
                       out_outertuple := firstSlot st\<rparr>))"
proof -
  have pb: "phase_boundary l st = Inr (l, st, numGroupingSets l)"
    using assms by (simp add: phase_boundary_def)
  have nb: "\<not> at_subgroup_boundary l st"
    using assms by (simp add: at_subgroup_boundary_def)
  have f: "fetch_input_tuple (st\<lparr>projected_set := 0\<rparr>) = (None, st\<lparr>projected_set := 0\<rparr>)"
    using assms by (intro fetch_nothing) simp_all
  have ng: "next_group l st (numGroupingSets l) =
        (if numGroupingSets l \<le> k
         then Inl (Continue l (st\<lparr>projected_set := int k, input_done := True\<rparr>))
         else Inr (st\<lparr>projected_set := int k, input_done := True,
                       pergroups := reset_sets (numGroupingSets l) (pergroups st),
                       out_outertuple := firstSlot st\<rparr>))"
    using assms(3,6,7,8) nb
    by (simp add: next_group_def f Let_def new_group_rows_def initialize_aggregates_def)
  show ?thesis by (simp add: direct_turn_def pb ng)
qed


lemma turn_next:
  assumes "input_done st" and "projected_set st = int j" and "j + 1 < numGroupingSets l"
  shows "direct_turn qual l st = project_group qual l (st\<lparr>projected_set := int j + 1\<rparr>)"
proof -
  have pb: "phase_boundary l st = Inr (l, st, Suc j)"
    using assms by (simp add: phase_boundary_def nat_add_distrib)
  have ng: "next_group l st (Suc j) = Inr (st\<lparr>projected_set := int j + 1\<rparr>)"
    using assms by (simp add: next_group_def at_subgroup_boundary_def)
  show ?thesis by (simp add: direct_turn_def pb ng)
qed

lemma turn_final:
  assumes "input_done st" and "projected_set st \<ge> int (numGroupingSets l) - 1"
    and "\<not> current_phase st + 1 < numphases st"
  shows "\<exists>st'. direct_turn qual l st = Return (final_outcome (node_aggstrategy st)) st'"
  using assms by (simp add: direct_turn_def phase_boundary_def final_outcome_def)

lemma turn_phase_end:
  assumes "input_done st" and "projected_set st \<ge> int (numGroupingSets l) - 1"
    and "current_phase st + 1 < numphases st"
    and "st0 = (initialize_phase st (current_phase st + 1))\<lparr>input_done := False, projected_set := - 1\<rparr>"
    and "l0 = l\<lparr>numGroupingSets := phase_sets st0, node := current_phase st0\<rparr>"
  shows "direct_turn qual l st = direct_turn qual l0 st0"
proof -
  have pb: "phase_boundary l st = Inr (l0, st0, numGroupingSets l0)"
    using assms by (simp add: phase_boundary_def Let_def)
  have pb0: "phase_boundary l0 st0 = Inr (l0, st0, numGroupingSets l0)"
    using assms(4) by (simp add: phase_boundary_def)
  show ?thesis by (simp add: direct_turn_def pb pb0)
qed

lemma initialize_phase_fields:
  "node_aggstrategy (initialize_phase st np) = node_aggstrategy st"
  "phases (initialize_phase st np) = phases st"
  "numphases (initialize_phase st np) = numphases st"
  "current_phase (initialize_phase st np) = np"
  "agg_done (initialize_phase st np) = agg_done st"
  "input_done (initialize_phase st np) = input_done st"
  "projected_set (initialize_phase st np) = projected_set st"
  "grp_firstTuple (initialize_phase st np) = grp_firstTuple st"
  "outer_input (initialize_phase st np) = outer_input st"
  "firstSlot (initialize_phase st np) = firstSlot st"
  "out_outertuple (initialize_phase st np) = out_outertuple st"
  "pergroups (initialize_phase st np) = pergroups st"
  "sort_in (initialize_phase st np) =
     (if np \<le> 1 then None else map_option (sort_key (sort_rank (phases st ! np))) (sort_out st))"
  "sort_out (initialize_phase st np) =
     (if np > 0 \<and> np + 1 < numphases st then Some [] else None)"
  by (simp_all add: initialize_phase_def Let_def)

lemma sorted_phases_nth:
  assumes "sorted_phases_ok maxsets ps" and "1 \<le> p" and "p < length ps"
  shows "grouping_sets_phase maxsets (ps ! p)"
proof -
  from assms(2,3) have "p - 1 < length (tl ps)" by simp
  with assms(1) have "grouping_sets_phase maxsets (tl ps ! (p - 1))"
    by (simp add: sorted_phases_ok_def list_all_length)
  with assms(2,3) show ?thesis by (simp add: nth_tl)
qed

lemma empty_run_next_phase:
  assumes "empty_run strategy maxsets ps st" and "current_phase st + 1 < length ps"
  shows "empty_run strategy maxsets ps
           ((initialize_phase st (current_phase st + 1))\<lparr>input_done := False, projected_set := - 1\<rparr>)"
  using assms by (auto simp: empty_run_def initialize_phase_fields)


lemma start_landing:
  assumes E: "empty_run strategy maxsets ps st" and G: "sorted_phases_ok maxsets ps"
    and N: "\<not> input_done st"
  shows "\<exists>st'. empty_run strategy maxsets ps st' \<and> input_done st' \<and>
           current_phase st' = current_phase st \<and>
           projected_set st' = int (first_empty_set (ps ! current_phase st)) \<and>
           direct_turn qual (entry_locals st) st =
             (if first_empty_set (ps ! current_phase st) < numsets (ps ! current_phase st)
              then project_group qual (entry_locals st') st'
              else Continue (entry_locals st') st')"
proof -
  define p where "p = current_phase st"
  define k where "k = first_empty_set (ps ! p)"
  define n where "n = numsets (ps ! p)"
  define l where "l = entry_locals st"
  from E have ph: "phases st = ps" and p: "1 \<le> p" "p < length ps"
    by (simp_all add: empty_run_def p_def)
  from sorted_phases_nth[OF G p] have gp: "grouping_sets_phase maxsets (ps ! p)" .
  then have n: "n > 0" by (simp add: grouping_sets_phase_def n_def)
  have l: "hasGroupingSets l" "numGroupingSets l = n"
    using n by (simp_all add: l_def entry_locals_grouping ph p_def[symmetric] n_def[symmetric])
  have k: "k = skip_nonempty_sets (gset_lengths (phases st ! current_phase st)) (numGroupingSets l) 0"
    using n by (simp add: k_def l ph p_def[symmetric] first_empty_set_eq n_def[symmetric])
  have ts: "direct_turn qual l st =
           (if n \<le> k
            then Continue l (st\<lparr>projected_set := int k, input_done := True\<rparr>)
            else project_group qual l
                   (st\<lparr>projected_set := int k, input_done := True,
                       pergroups := reset_sets n (pergroups st),
                       out_outertuple := firstSlot st\<rparr>))"
    using turn_start[OF N _ _ _ _ l(1) _ k, of qual] E N n
    by (simp add: empty_run_def l)
  show ?thesis
  proof (cases "k < n")
    case True
    define st' where "st' = st\<lparr>projected_set := int k, input_done := True,
                       pergroups := reset_sets n (pergroups st),
                       out_outertuple := firstSlot st\<rparr>"
    have e: "empty_run strategy maxsets ps st'"
      using E by (simp add: empty_run_def st'_def reset_sets_replicate)
    have l': "entry_locals st' = l" by (simp add: l_def st'_def entry_locals_def phase_sets_def)
    have "direct_turn qual l st = project_group qual l st'"
      using True ts by (simp add: st'_def)
    then have "direct_turn qual l st = project_group qual (entry_locals st') st'"
      by (simp only: l')
    with e True show ?thesis
      unfolding l_def[symmetric] p_def[symmetric] k_def[symmetric] n_def[symmetric]
      by (intro exI[of _ st']) (simp add: st'_def p_def)
  next
    case False
    define st' where "st' = st\<lparr>projected_set := int k, input_done := True\<rparr>"
    have e: "empty_run strategy maxsets ps st'"
      using E by (simp add: empty_run_def st'_def)
    have l': "entry_locals st' = l" by (simp add: l_def st'_def entry_locals_def phase_sets_def)
    have "direct_turn qual l st = Continue l st'"
      using False ts by (simp add: st'_def)
    then have "direct_turn qual l st = Continue (entry_locals st') st'"
      by (simp only: l')
    with e False show ?thesis
      unfolding l_def[symmetric] p_def[symmetric] k_def[symmetric] n_def[symmetric]
      by (intro exI[of _ st']) (simp add: st'_def p_def)
  qed
qed

lemma rows_of_phase_unfold:
  "rows_of_phase qual ps p a =
     (if a < numsets (ps ! p)
      then (if qual (initial_row p a) then [initial_row p a] else []) @
           rows_of_phase qual ps p (Suc a)
      else [])"
  by (simp add: rows_of_phase_def upt_conv_Cons)

lemma rows_of_phases_unfold:
  "p < length ps \<Longrightarrow>
   rows_of_phases qual ps p =
     rows_of_phase qual ps p (first_empty_set (ps ! p)) @ rows_of_phases qual ps (Suc p)"
  by (simp add: rows_of_phases_def upt_conv_Cons)

lemma turns_of_phases_unfold:
  "p < length ps \<Longrightarrow>
   turns_of_phases ps p = numsets (ps ! p) + 2 + turns_of_phases ps (Suc p)"
  by (simp add: turns_of_phases_def upt_conv_Cons)

lemma landing:
  assumes E: "empty_run strategy maxsets ps st'" and D: "input_done st'"
    and G: "sorted_phases_ok maxsets ps"
    and T: "turn = (if nat (projected_set st') < numsets (ps ! current_phase st')
                   then project_group qual (entry_locals st') st'
                   else Continue (entry_locals st') st')"
    and R: "rows = rows_of_phase qual ps (current_phase st') (nat (projected_set st')) @
                   rows_of_phases qual ps (Suc (current_phase st'))"
  shows "if nat (projected_set st') < numsets (ps ! current_phase st') \<and>
            qual (initial_row (current_phase st') (nat (projected_set st')))
         then turn = Return (ResultRow (initial_row (current_phase st') (nat (projected_set st')))) st' \<and>
              rows = initial_row (current_phase st') (nat (projected_set st')) # rows_left qual st'
         else turn = Continue (entry_locals st') st' \<and> rows = rows_left qual st'"
proof -
  define p where "p = current_phase st'"
  define a where "a = nat (projected_set st')"
  from E have ph: "phases st' = ps" and p: "1 \<le> p" "p < length ps"
    and o: "out_outertuple st' = None" and g: "pergroups st' = replicate (max maxsets 1) []"
    by (simp_all add: empty_run_def p_def)
  from E D have j: "0 \<le> projected_set st'" by (simp add: empty_run_def)
  from sorted_phases_nth[OF G p] have gp: "grouping_sets_phase maxsets (ps ! p)" .
  then have n: "numsets (ps ! p) \<le> max maxsets 1" by (simp add: grouping_sets_phase_def)
  have np: "next_pos st' = Suc a" using D j by (simp add: next_pos_def a_def nat_add_distrib)
  have rl: "rows_left qual st' = rows_of_phase qual ps p (Suc a) @ rows_of_phases qual ps (Suc p)"
    by (simp add: rows_left_def ph np p_def)
  show ?thesis
  proof (cases "a < numsets (ps ! p)")
    case True
    with n have "nat (projected_set st') < max maxsets 1" by (simp add: a_def)
    note pr = project_initial_row[OF o g j this, of qual "entry_locals st'",
                                  folded p_def a_def]
    have r1: "rows_of_phase qual ps p a =
                (if qual (initial_row p a) then [initial_row p a] else []) @
                rows_of_phase qual ps p (Suc a)"
      using True by (subst rows_of_phase_unfold) simp
    from True T R show ?thesis
      unfolding p_def[symmetric] a_def[symmetric] by (simp add: pr r1 rl)
  next
    case False
    then have r1: "rows_of_phase qual ps p a = []" "rows_of_phase qual ps p (Suc a) = []"
      by (subst rows_of_phase_unfold, simp)+
    from False T R show ?thesis
      unfolding p_def[symmetric] a_def[symmetric] by (simp add: r1 rl)
  qed
qed


lemma turns_left_done:
  "input_done st \<Longrightarrow> 0 \<le> projected_set st \<Longrightarrow>
   turns_left st = (numsets (phases st ! current_phase st) - Suc (nat (projected_set st))) +
                   turns_of_phases (phases st) (Suc (current_phase st))"
  by (simp add: turns_left_def next_pos_def nat_add_distrib)

lemma turn_empty_run:
  assumes E: "empty_run strategy maxsets ps st" and G: "sorted_phases_ok maxsets ps"
  shows "(\<exists>st'. direct_turn qual (entry_locals st) st = Return (final_outcome strategy) st' \<and>
               rows_left qual st = []) \<or>
         (\<exists>st'. empty_run strategy maxsets ps st' \<and> turns_left st' < turns_left st \<and>
            ((\<exists>r. direct_turn qual (entry_locals st) st = Return (ResultRow r) st' \<and>
                  rows_left qual st = r # rows_left qual st') \<or>
             (direct_turn qual (entry_locals st) st = Continue (entry_locals st') st' \<and>
              rows_left qual st = rows_left qual st')))"
proof -
  define p where "p = current_phase st"
  define n where "n = numsets (ps ! p)"
  define l where "l = entry_locals st"
  from E have ph: "phases st = ps" and p: "1 \<le> p" "p < length ps"
    and np: "numphases st = length ps" and str: "node_aggstrategy st = strategy"
    by (simp_all add: empty_run_def p_def)
  from sorted_phases_nth[OF G p] have gp: "grouping_sets_phase maxsets (ps ! p)" .
  then have n: "n > 0" by (simp add: grouping_sets_phase_def n_def)
  have l: "hasGroupingSets l" "numGroupingSets l = n"
    using n by (simp_all add: l_def entry_locals_grouping ph p_def[symmetric] n_def[symmetric])
  have land: "?thesis"
    if E': "empty_run strategy maxsets ps st'" and D': "input_done st'"
      and T': "direct_turn qual l st =
                 (if nat (projected_set st') < numsets (ps ! current_phase st')
                  then project_group qual (entry_locals st') st'
                  else Continue (entry_locals st') st')"
      and R': "rows_left qual st =
                 rows_of_phase qual ps (current_phase st') (nat (projected_set st')) @
                 rows_of_phases qual ps (Suc (current_phase st'))"
      and M': "turns_left st' < turns_left st" for st'
  proof -
    note c = landing[OF E' D' G T' R']
    show ?thesis
    proof (cases "nat (projected_set st') < numsets (ps ! current_phase st') \<and>
                  qual (initial_row (current_phase st') (nat (projected_set st')))")
      case True
      with c E' M' show ?thesis unfolding l_def by (intro disjI2 exI[of _ st']) simp
    next
      case False
      with c E' M' show ?thesis unfolding l_def by (intro disjI2 exI[of _ st']) auto
    qed
  qed
  show ?thesis
  proof (cases "input_done st")
    case False
    from start_landing[OF E G False, of qual] obtain st' where
      s: "empty_run strategy maxsets ps st'" "input_done st'" "current_phase st' = p"
         "projected_set st' = int (first_empty_set (ps ! p))"
         "direct_turn qual l st =
            (if first_empty_set (ps ! p) < numsets (ps ! p)
             then project_group qual (entry_locals st') st'
             else Continue (entry_locals st') st')"
      unfolding p_def l_def by blast
    from s(1) have ph': "phases st' = ps" by (simp add: empty_run_def)
    have T': "direct_turn qual l st =
                 (if nat (projected_set st') < numsets (ps ! current_phase st')
                  then project_group qual (entry_locals st') st'
                  else Continue (entry_locals st') st')"
      using s(5) by (simp add: s(3,4))
    have R': "rows_left qual st =
                 rows_of_phase qual ps (current_phase st') (nat (projected_set st')) @
                 rows_of_phases qual ps (Suc (current_phase st'))"
      using False by (simp add: rows_left_def next_pos_def ph s(3,4) p_def)
    have "turns_left st = 1 + (n - first_empty_set (ps ! p)) + turns_of_phases ps (Suc p)"
      using False by (simp add: turns_left_def next_pos_def ph p_def n_def)
    moreover have "turns_left st' = (n - Suc (first_empty_set (ps ! p))) + turns_of_phases ps (Suc p)"
      using s(2) by (simp add: turns_left_done ph' s(3,4) n_def)
    ultimately have M': "turns_left st' < turns_left st" by simp
    from land[OF s(1,2) T' R' M'] show ?thesis .
  next
    case True
    with E have j0: "0 \<le> projected_set st" by (simp add: empty_run_def)
    define j where "j = nat (projected_set st)"
    from j0 have j: "projected_set st = int j" by (simp add: j_def)
    have tl: "turns_left st = (n - Suc j) + turns_of_phases ps (Suc p)"
      using True j0 by (simp add: turns_left_done ph p_def[symmetric] n_def j_def)
    have rl: "rows_left qual st = rows_of_phase qual ps p (Suc j) @ rows_of_phases qual ps (Suc p)"
      using True by (simp add: rows_left_def next_pos_def ph p_def[symmetric] j nat_add_distrib)
    show ?thesis
    proof (cases "j + 1 < n")
      case True
      define st' where "st' = st\<lparr>projected_set := int j + 1\<rparr>"
      have E': "empty_run strategy maxsets ps st'"
        using E \<open>input_done st\<close> by (simp add: empty_run_def st'_def)
      have D': "input_done st'" using \<open>input_done st\<close> by (simp add: st'_def)
      have l': "entry_locals st' = l" by (simp add: l_def st'_def entry_locals_def phase_sets_def)
      have c': "current_phase st' = p" "nat (projected_set st') = Suc j"
        by (simp_all add: st'_def p_def nat_add_distrib)
      from True l have "j + 1 < numGroupingSets l" by simp
      from turn_next[OF \<open>input_done st\<close> j this, of qual]
      have "direct_turn qual l st = project_group qual l st'" by (simp add: st'_def)
      then have T': "direct_turn qual l st =
                 (if nat (projected_set st') < numsets (ps ! current_phase st')
                  then project_group qual (entry_locals st') st'
                  else Continue (entry_locals st') st')"
        using True by (simp add: l' c' n_def[symmetric])
      have R': "rows_left qual st =
                 rows_of_phase qual ps (current_phase st') (nat (projected_set st')) @
                 rows_of_phases qual ps (Suc (current_phase st'))"
        by (simp add: rl c')
      have "turns_left st' = (n - Suc (Suc j)) + turns_of_phases ps (Suc p)"
        using D' E' by (simp add: turns_left_done c' empty_run_def n_def)
      with tl True have M': "turns_left st' < turns_left st" by simp
      from land[OF E' D' T' R' M'] show ?thesis .
    next
      case False
      then have jn: "projected_set st \<ge> int (numGroupingSets l) - 1" by (simp add: l j)
      from False have r0: "rows_of_phase qual ps p (Suc j) = []"
        by (subst rows_of_phase_unfold) (simp add: n_def)
      show ?thesis
      proof (cases "p + 1 < length ps")
        case False
        then have "\<not> current_phase st + 1 < numphases st" by (simp add: np p_def)
        from turn_final[OF \<open>input_done st\<close> jn this, of qual]
        obtain st' where "direct_turn qual l st = Return (final_outcome strategy) st'"
          by (auto simp: str)
        moreover from False have "rows_of_phases qual ps (Suc p) = []"
          by (simp add: rows_of_phases_def)
        ultimately show ?thesis unfolding l_def by (intro disjI1 exI[of _ st']) (simp add: rl r0)
      next
        case True
        define st0 where "st0 = (initialize_phase st (current_phase st + 1))
                                  \<lparr>input_done := False, projected_set := - 1\<rparr>"
        define l0 where "l0 = l\<lparr>numGroupingSets := phase_sets st0, node := current_phase st0\<rparr>"
        from True have cp: "current_phase st + 1 < numphases st" by (simp add: np p_def)
        note pe = turn_phase_end[OF \<open>input_done st\<close> jn cp st0_def l0_def, of qual]
        from True have "current_phase st + 1 < length ps" by (simp add: p_def)
        from empty_run_next_phase[OF E this]
        have E0: "empty_run strategy maxsets ps st0" by (simp add: st0_def)
        have c0: "current_phase st0 = Suc p" "\<not> input_done st0" "phases st0 = ps"
          by (simp_all add: st0_def initialize_phase_fields p_def ph)
        from True have p0: "1 \<le> Suc p" "Suc p < length ps" by simp_all
        from sorted_phases_nth[OF G p0]
        have n0: "numsets (ps ! Suc p) > 0" by (simp add: grouping_sets_phase_def)
        have l0: "l0 = entry_locals st0"
          using n0 l(1)
          by (simp add: l0_def entry_locals_def phase_sets_def c0 l_def)
        from start_landing[OF E0 G c0(2), of qual] obtain st' where
          s: "empty_run strategy maxsets ps st'" "input_done st'" "current_phase st' = Suc p"
             "projected_set st' = int (first_empty_set (ps ! Suc p))"
             "direct_turn qual l0 st0 =
                (if first_empty_set (ps ! Suc p) < numsets (ps ! Suc p)
                 then project_group qual (entry_locals st') st'
                 else Continue (entry_locals st') st')"
          unfolding c0 l0 by blast
        from s(1) have ph': "phases st' = ps" by (simp add: empty_run_def)
        have T': "direct_turn qual l st =
                 (if nat (projected_set st') < numsets (ps ! current_phase st')
                  then project_group qual (entry_locals st') st'
                  else Continue (entry_locals st') st')"
          using s(5) by (simp add: pe s(3,4))
        have R': "rows_left qual st =
                 rows_of_phase qual ps (current_phase st') (nat (projected_set st')) @
                 rows_of_phases qual ps (Suc (current_phase st'))"
          by (simp add: rl r0 s(3,4) rows_of_phases_unfold[OF p0(2)])
        have "turns_left st' = (numsets (ps ! Suc p) - Suc (first_empty_set (ps ! Suc p))) +
                               turns_of_phases ps (Suc (Suc p))"
          using s(2) by (simp add: turns_left_done ph' s(3,4))
        moreover have "turns_left st = (n - Suc j) + (numsets (ps ! Suc p) + 2 +
                                                      turns_of_phases ps (Suc (Suc p)))"
          by (simp add: tl turns_of_phases_unfold[OF p0(2)])
        ultimately have M': "turns_left st' < turns_left st" by simp
        from land[OF s(1,2) T' R' M'] show ?thesis .
      qed
    qed
  qed
qed


lemma direct_loop_empty_run:
  assumes G: "sorted_phases_ok maxsets ps"
  shows "empty_run strategy maxsets ps st \<Longrightarrow> turns_left st < fuel \<Longrightarrow>
     (rows_left qual st = [] \<and>
      (\<exists>st'. direct_loop qual fuel (entry_locals st) st = Some (final_outcome strategy, st'))) \<or>
     (\<exists>r st'. direct_loop qual fuel (entry_locals st) st = Some (ResultRow r, st') \<and>
              rows_left qual st = r # rows_left qual st' \<and>
              empty_run strategy maxsets ps st' \<and> turns_left st' < turns_left st)"
proof (induction fuel arbitrary: st)
  case 0
  then show ?case by simp
next
  case (Suc fuel)
  from Suc.prems(1) have nd: "\<not> agg_done st" by (simp add: empty_run_def)
  from turn_empty_run[OF Suc.prems(1) G, of qual]
  consider (final) st' where
      "direct_turn qual (entry_locals st) st = Return (final_outcome strategy) st'"
      "rows_left qual st = []"
    | (row) st' r where "empty_run strategy maxsets ps st'" "turns_left st' < turns_left st"
      "direct_turn qual (entry_locals st) st = Return (ResultRow r) st'"
      "rows_left qual st = r # rows_left qual st'"
    | (again) st' where "empty_run strategy maxsets ps st'" "turns_left st' < turns_left st"
      "direct_turn qual (entry_locals st) st = Continue (entry_locals st') st'"
      "rows_left qual st = rows_left qual st'"
    by blast
  then show ?case
  proof cases
    case final
    then show ?thesis using nd by simp
  next
    case row
    then show ?thesis using nd by simp
  next
    case again
    from again(2) Suc.prems(2) have "turns_left st' < fuel" by simp
    from Suc.IH[OF again(1) this]
    have "(rows_left qual st' = [] \<and>
      (\<exists>st''. direct_loop qual fuel (entry_locals st') st' = Some (final_outcome strategy, st''))) \<or>
     (\<exists>r st''. direct_loop qual fuel (entry_locals st') st' = Some (ResultRow r, st'') \<and>
              rows_left qual st' = r # rows_left qual st'' \<and>
              empty_run strategy maxsets ps st'' \<and> turns_left st'' < turns_left st')" .
    moreover have "direct_loop qual (Suc fuel) (entry_locals st) st =
                   direct_loop qual fuel (entry_locals st') st'"
      using nd again(3) by simp
    ultimately show ?thesis using again(2,4) by (metis less_trans)
  qed
qed

lemma ExecAgg_rows_empty_run:
  assumes G: "sorted_phases_ok maxsets ps"
  shows "empty_run strategy maxsets ps st \<Longrightarrow> turns_left st < fuel \<Longrightarrow> turns_left st < calls \<Longrightarrow>
         \<exists>st'. ExecAgg_rows qual fuel calls st = Some (rows_left qual st, final_outcome strategy, st')"
proof (induction calls arbitrary: st)
  case 0
  then show ?case by simp
next
  case (Suc calls)
  from Suc.prems(1) have nd: "\<not> agg_done st" by (simp add: empty_run_def)
  from direct_loop_empty_run[OF G Suc.prems(1,2), of qual]
  consider (final) st' where "rows_left qual st = []"
      "agg_retrieve_direct qual fuel st = Some (final_outcome strategy, st')"
    | (row) r st' where "agg_retrieve_direct qual fuel st = Some (ResultRow r, st')"
      "rows_left qual st = r # rows_left qual st'"
      "empty_run strategy maxsets ps st'" "turns_left st' < turns_left st"
    unfolding agg_retrieve_direct_def by blast
  then show ?case
  proof cases
    case final
    then show ?thesis using nd by (simp add: final_outcome_def)
  next
    case row
    from row(4) Suc.prems(2,3) have "turns_left st' < fuel" "turns_left st' < calls" by simp_all
    from Suc.IH[OF row(3) this] obtain st'' where
      "ExecAgg_rows qual fuel calls st' = Some (rows_left qual st', final_outcome strategy, st'')"
      by blast
    then show ?thesis using nd row(1,2) by simp
  qed
qed


lemma empty_sets_filter:
  assumes g: "grouping_sets_phase maxsets ph"
  shows "filter (\<lambda>i. gset_lengths ph ! i = 0 \<and> Q i) [0..<numsets ph] =
         filter Q [first_empty_set ph..<numsets ph]"
proof -
  define k where "k = first_empty_set ph"
  define n where "n = numsets ph"
  from g have len: "length (gset_lengths ph) = n" and srt: "sorted (rev (gset_lengths ph))"
    by (simp_all add: grouping_sets_phase_def n_def)
  from first_empty_set_bounds(1) [OF g] have kn: "k \<le> n" by (simp add: k_def n_def)
  have pos: "\<And>i. i < k \<Longrightarrow> gset_lengths ph ! i > 0"
    using first_empty_set_bounds(3) [OF g] by (simp add: k_def)
  have zero: "\<And>i. k \<le> i \<Longrightarrow> i < n \<Longrightarrow> gset_lengths ph ! i = 0"
  proof -
    fix i assume i: "k \<le> i" "i < n"
    then have "k < n" by simp
    with first_empty_set_bounds(2) [OF g] have "gset_lengths ph ! k = 0" by (simp add: k_def n_def)
    moreover from srt i len have "gset_lengths ph ! i \<le> gset_lengths ph ! k"
      by (intro sorted_rev_nth_mono) simp_all
    ultimately show "gset_lengths ph ! i = 0" by simp
  qed
  from kn have "[0..<n] = [0..<k] @ [k..<n]"
    by (metis le_add_diff_inverse upt_add_eq_append zero_le)
  then have "filter (\<lambda>i. gset_lengths ph ! i = 0 \<and> Q i) [0..<n] =
             filter (\<lambda>i. gset_lengths ph ! i = 0 \<and> Q i) [0..<k] @
             filter (\<lambda>i. gset_lengths ph ! i = 0 \<and> Q i) [k..<n]"
    by simp
  moreover have "filter (\<lambda>i. gset_lengths ph ! i = 0 \<and> Q i) [0..<k] = []"
    using pos by (auto simp: filter_empty_conv)
  moreover have "filter (\<lambda>i. gset_lengths ph ! i = 0 \<and> Q i) [k..<n] = filter Q [k..<n]"
    using zero by (intro filter_cong) auto
  ultimately show ?thesis by (simp add: k_def n_def)
qed

lemma rows_of_phases_spec:
  assumes G: "sorted_phases_ok maxsets ps"
  shows "rows_of_phases qual ps 1 = spec_empty_input_rows qual ps"
proof -
  have "map (\<lambda>q. rows_of_phase qual ps q (first_empty_set (ps ! q))) [1..<length ps] =
        map (\<lambda>p. map (initial_row p)
                    (filter (\<lambda>i. gset_lengths (ps ! p) ! i = 0 \<and> qual (initial_row p i))
                            [0..<numsets (ps ! p)])) [1..<length ps]"
  proof (rule map_cong [OF refl])
    fix q assume "q \<in> set [1..<length ps]"
    then have "1 \<le> q" "q < length ps" by simp_all
    from sorted_phases_nth [OF G this] have "grouping_sets_phase maxsets (ps ! q)" .
    from empty_sets_filter [OF this, of "\<lambda>i. qual (initial_row q i)"]
    show "rows_of_phase qual ps q (first_empty_set (ps ! q)) =
          map (initial_row q)
              (filter (\<lambda>i. gset_lengths (ps ! q) ! i = 0 \<and> qual (initial_row q i))
                      [0..<numsets (ps ! q)])"
      by (simp add: rows_of_phase_def)
  qed
  then show ?thesis
    unfolding rows_of_phases_def spec_empty_input_rows_def by (rule arg_cong)
qed

lemma direct_init_fields:
  "node_aggstrategy (direct_init strategy ps input maxsets) = strategy"
  "phases (direct_init strategy ps input maxsets) = ps"
  "numphases (direct_init strategy ps input maxsets) = length ps"
  "current_phase (direct_init strategy ps input maxsets) = 1"
  "agg_done (direct_init strategy ps input maxsets) = False"
  "input_done (direct_init strategy ps input maxsets) = False"
  "projected_set (direct_init strategy ps input maxsets) = - 1"
  "grp_firstTuple (direct_init strategy ps input maxsets) = None"
  "outer_input (direct_init strategy ps input maxsets) = input"
  "sort_in (direct_init strategy ps input maxsets) = None"
  "firstSlot (direct_init strategy ps input maxsets) = None"
  "out_outertuple (direct_init strategy ps input maxsets) = None"
  "pergroups (direct_init strategy ps input maxsets) = replicate (max maxsets 1) []"
  "sort_out (direct_init strategy ps input maxsets) = (if 2 < length ps then Some [] else None)"
  by (simp_all add: direct_init_def initialize_phase_fields)

lemma direct_init_empty_run:
  "2 \<le> length ps \<Longrightarrow> empty_run strategy maxsets ps (direct_init strategy ps [] maxsets)"
  by (simp add: empty_run_def direct_init_fields)

lemma turns_of_phases_all: "turns_of_phases ps 0 = sum_list (map (\<lambda>ph. numsets ph + 2) ps)"
proof -
  have "map (\<lambda>q. numsets (ps ! q) + 2) [0..<length ps] = map (\<lambda>ph. numsets ph + 2) ps"
    by (rule nth_equalityI) simp_all
  then show ?thesis by (simp add: turns_of_phases_def)
qed

lemma direct_init_turns:
  assumes "2 \<le> length ps"
  shows "turns_left (direct_init strategy ps [] maxsets) < direct_turn_bound ps"
proof -
  from assms have l: "0 < length ps" "1 < length ps" by linarith+
  have "turns_left (direct_init strategy ps [] maxsets) \<le>
        1 + numsets (ps ! 1) + turns_of_phases ps (Suc 1)"
    by (simp add: turns_left_def direct_init_fields)
  also have "\<dots> < turns_of_phases ps 1"
    using turns_of_phases_unfold [OF l(2)] by simp
  also have "\<dots> \<le> turns_of_phases ps 0"
    using turns_of_phases_unfold [OF l(1)] by simp
  finally show ?thesis by (simp add: turns_of_phases_all direct_turn_bound_def)
qed

lemma direct_init_rows_left:
  assumes "2 \<le> length ps" and G: "sorted_phases_ok maxsets ps"
  shows "rows_left qual (direct_init strategy ps [] maxsets) = spec_empty_input_rows qual ps"
proof -
  from assms have l: "1 < length ps" by simp
  have "rows_left qual (direct_init strategy ps [] maxsets) =
        rows_of_phase qual ps 1 (first_empty_set (ps ! 1)) @ rows_of_phases qual ps (Suc 1)"
    by (simp add: rows_left_def next_pos_def direct_init_fields)
  also have "\<dots> = rows_of_phases qual ps 1"
    using rows_of_phases_unfold [OF l, of qual] by simp
  finally show ?thesis by (simp only: rows_of_phases_spec [OF G])
qed

lemma grouping_sets_empty_input:
  assumes l: "2 \<le> length ps" and G: "sorted_phases_ok maxsets ps"
    and f: "direct_turn_bound ps \<le> fuel" and c: "direct_turn_bound ps \<le> calls"
  shows "map_option (\<lambda>(rows, outcome, st). (rows, outcome))
           (ExecAgg_rows qual fuel calls (direct_init strategy ps [] maxsets)) =
         Some (spec_empty_input_rows qual ps, final_outcome strategy)"
proof -
  note e = direct_init_empty_run [OF l, of strategy maxsets]
  from direct_init_turns [OF l, of strategy maxsets] f c
  have t: "turns_left (direct_init strategy ps [] maxsets) < fuel"
    "turns_left (direct_init strategy ps [] maxsets) < calls" by simp_all
  from ExecAgg_rows_empty_run [OF G e t, of qual] obtain st' where
    "ExecAgg_rows qual fuel calls (direct_init strategy ps [] maxsets) =
       Some (rows_left qual (direct_init strategy ps [] maxsets), final_outcome strategy, st')"
    by blast
  then show ?thesis by (simp add: direct_init_rows_left [OF l G])
qed

lemma plain_turn:
  assumes p: "phase_aggstrategy (ps ! 1) = AGG_PLAIN" and n: "numsets (ps ! 1) = 0"
  shows "\<exists>st'. agg_done st' \<and>
           direct_turn qual (entry_locals (direct_init strategy ps [] maxsets))
             (direct_init strategy ps [] maxsets) =
           (if qual (initial_row 1 0) then Return (ResultRow (initial_row 1 0)) st'
            else Continue (entry_locals (direct_init strategy ps [] maxsets)) st')"
proof -
  define st where "st = direct_init strategy ps [] maxsets"
  define l where "l = entry_locals st"
  have l: "hasGroupingSets l = False" "numGroupingSets l = 1" "node l = 1"
    using n by (simp_all add: l_def entry_locals_def phase_sets_def st_def direct_init_fields)
  have pb: "phase_boundary l st = Inr (l, st, Suc 0)"
    by (simp add: phase_boundary_def l st_def direct_init_fields)
  have g: "\<And>s. phases s = ps \<Longrightarrow> \<not> grouping l s"
    using p by (simp add: grouping_def l)
  have nb: "\<not> at_subgroup_boundary l st"
    using g [of st] by (simp add: at_subgroup_boundary_def st_def direct_init_fields)
  have f: "fetch_input_tuple (st\<lparr>projected_set := 0\<rparr>) = (None, st\<lparr>projected_set := 0\<rparr>)"
    by (intro fetch_nothing) (simp_all add: st_def direct_init_fields)
  define st' where "st' = (initialize_aggregates (st\<lparr>projected_set := 0, agg_done := True\<rparr>) 1)
                            \<lparr>out_outertuple := None\<rparr>"
  have ng: "next_group l st (Suc 0) = Inr st'"
    using nb g [of "st\<lparr>projected_set := 0, agg_done := True\<rparr>"]
    by (simp add: next_group_def f [unfolded st_def] Let_def l new_group_rows_def st'_def
          initialize_aggregates_def st_def direct_init_fields)
  have pg: "pergroups st' = replicate (max maxsets 1) []"
    by (simp add: st'_def initialize_aggregates_def st_def direct_init_fields reset_sets_replicate)
  have "project_group qual l st' =
          (if qual (initial_row (current_phase st') (nat (projected_set st')))
           then Return (ResultRow (initial_row (current_phase st') (nat (projected_set st')))) st'
           else Continue l st')"
    by (rule project_initial_row [OF _ pg])
       (simp_all add: st'_def initialize_aggregates_def)
  moreover have "current_phase st' = 1" "nat (projected_set st') = 0"
    by (simp_all add: st'_def initialize_aggregates_def st_def direct_init_fields)
  ultimately have pp: "project_group qual l st' =
          (if qual (initial_row 1 0) then Return (ResultRow (initial_row 1 0)) st'
           else Continue l st')"
    by (simp only:)
  have d: "agg_done st'"
    by (simp add: st'_def initialize_aggregates_def)
  have "direct_turn qual l st = project_group qual l st'"
    by (simp add: direct_turn_def pb ng)
  with pp d have "agg_done st' \<and> direct_turn qual l st =
          (if qual (initial_row 1 0) then Return (ResultRow (initial_row 1 0)) st'
           else Continue l st')"
    by (simp only:)
  then show ?thesis unfolding l_def st_def by blast
qed

lemma plain_empty_input:
  assumes p: "phase_aggstrategy (ps ! 1) = AGG_PLAIN" and n: "numsets (ps ! 1) = 0"
    and f: "2 \<le> fuel" and c: "2 \<le> calls"
  shows "map_option (\<lambda>(rows, outcome, st). (rows, outcome))
           (ExecAgg_rows qual fuel calls (direct_init strategy ps [] maxsets)) =
         Some (filter qual [initial_row 1 0], NoMoreRows)"
proof -
  from f obtain f' where f': "fuel = Suc (Suc f')" by (metis Suc_le_D numeral_2_eq_2 Suc_le_mono)
  from c obtain c' where c': "calls = Suc (Suc c')" by (metis Suc_le_D numeral_2_eq_2 Suc_le_mono)
  from plain_turn [OF p n, of qual strategy maxsets] obtain st' where
    d: "agg_done st'" and
    t: "direct_turn qual (entry_locals (direct_init strategy ps [] maxsets))
             (direct_init strategy ps [] maxsets) =
           (if qual (initial_row 1 0) then Return (ResultRow (initial_row 1 0)) st'
            else Continue (entry_locals (direct_init strategy ps [] maxsets)) st')"
    by blast
  show ?thesis
  proof (cases "qual (initial_row 1 0)")
    case True
    with t d show ?thesis
      by (simp add: f' c' agg_retrieve_direct_def direct_init_fields)
  next
    case False
    with t d show ?thesis
      by (simp add: f' c' agg_retrieve_direct_def direct_init_fields)
  qed
qed


text \<open>
  Claim C7, with the qual. The child plan returns no row and \<open>ExecAgg\<close> is called until
  it returns none. In a plain aggregation the one row projected is the row of the initial
  transition states, and it is returned if it passes the qual; then the aggregation is
  done. In an aggregation over grouping sets, each phase listing its sets from the most
  specific to the least, the rows projected are, phase after phase, the rows of the initial
  transition states of the grouping sets without grouping columns, one for each, and none
  for a set with grouping columns; each is returned if it passes the qual. After the last
  sorted phase the aggregation is done, or, in a mixed aggregation, goes on to read the
  hash tables. In both cases the loop ends within the bound on turns and calls.
\<close>

theorem C7_empty_input:
  "(phase_aggstrategy (phase_list ! 1) = AGG_PLAIN \<and> numsets (phase_list ! 1) = 0 \<and>
    2 \<le> fuel \<and> 2 \<le> calls \<longrightarrow>
      map_option (\<lambda>(rows, outcome, st). (rows, outcome))
        (ExecAgg_rows qual fuel calls (direct_init strategy phase_list [] maxsets)) =
      Some (filter qual [initial_row 1 0], NoMoreRows))
   \<and> (2 \<le> length phase_list \<and> sorted_phases_ok maxsets phase_list \<and>
       direct_turn_bound phase_list \<le> fuel \<and> direct_turn_bound phase_list \<le> calls \<longrightarrow>
      map_option (\<lambda>(rows, outcome, st). (rows, outcome))
        (ExecAgg_rows qual fuel calls (direct_init strategy phase_list [] maxsets)) =
      Some (spec_empty_input_rows qual phase_list, final_outcome strategy))"
proof (intro conjI impI)
  assume "phase_aggstrategy (phase_list ! 1) = AGG_PLAIN \<and> numsets (phase_list ! 1) = 0 \<and>
    2 \<le> fuel \<and> 2 \<le> calls"
  then have "phase_aggstrategy (phase_list ! 1) = AGG_PLAIN" "numsets (phase_list ! 1) = 0"
    "2 \<le> fuel" "2 \<le> calls" by blast+
  then show "map_option (\<lambda>(rows, outcome, st). (rows, outcome))
        (ExecAgg_rows qual fuel calls (direct_init strategy phase_list [] maxsets)) =
      Some (filter qual [initial_row 1 0], NoMoreRows)"
    by (rule plain_empty_input)
next
  assume "2 \<le> length phase_list \<and> sorted_phases_ok maxsets phase_list \<and>
       direct_turn_bound phase_list \<le> fuel \<and> direct_turn_bound phase_list \<le> calls"
  then have "2 \<le> length phase_list" "sorted_phases_ok maxsets phase_list"
    "direct_turn_bound phase_list \<le> fuel" "direct_turn_bound phase_list \<le> calls" by blast+
  then show "map_option (\<lambda>(rows, outcome, st). (rows, outcome))
        (ExecAgg_rows qual fuel calls (direct_init strategy phase_list [] maxsets)) =
      Some (spec_empty_input_rows qual phase_list, final_outcome strategy)"
    by (rule grouping_sets_empty_input)
qed

lemma sample_phases_ok: "sorted_phases_ok 3 [hash_phase, rollup_phase, second_rollup_phase]"
  by (simp add: sorted_phases_ok_def grouping_sets_phase_def rollup_phase_def
        second_rollup_phase_def)

lemma sample_turn_bound: "direct_turn_bound [hash_phase, rollup_phase, second_rollup_phase] = 12"
  by (simp add: direct_turn_bound_def hash_phase_def rollup_phase_def second_rollup_phase_def)

lemma sample_spec_rows:
  "spec_empty_input_rows every_row_passes [hash_phase, rollup_phase, second_rollup_phase] =
     [initial_row 1 2, initial_row 2 1]"
  by (simp add: spec_empty_input_rows_def every_row_passes_def rollup_phase_def
        second_rollup_phase_def numeral_3_eq_3 numeral_2_eq_2)

theorem C7_empty_input_witness:
  "map_option (\<lambda>(rows, outcome, st). (rows, outcome))
     (ExecAgg_rows every_row_passes 2 2 (direct_init AGG_PLAIN [hash_phase, plain_phase] [] 1)) =
     Some ([initial_row 1 0], NoMoreRows)
   \<and> map_option (\<lambda>(rows, outcome, st). (rows, outcome))
       (ExecAgg_rows every_row_passes 12 12
          (direct_init AGG_SORTED [hash_phase, rollup_phase, second_rollup_phase] [] 3)) =
     Some ([initial_row 1 2, initial_row 2 1], NoMoreRows)
   \<and> map_option (\<lambda>(rows, outcome, st). (rows, outcome))
       (ExecAgg_rows every_row_passes 12 12
          (direct_init AGG_MIXED [hash_phase, rollup_phase, second_rollup_phase] [] 3)) =
     Some ([initial_row 1 2, initial_row 2 1], RetrieveHashTable)"
  using C7_empty_input [of "[hash_phase, plain_phase]" 2 2 every_row_passes AGG_PLAIN 1]
        C7_empty_input [of "[hash_phase, rollup_phase, second_rollup_phase]" 12 12
                           every_row_passes AGG_SORTED 3]
        C7_empty_input [of "[hash_phase, rollup_phase, second_rollup_phase]" 12 12
                           every_row_passes AGG_MIXED 3]
  by (simp add: sample_phases_ok sample_turn_bound sample_spec_rows plain_phase_def
        every_row_passes_def final_outcome_def)

text \<open>
  Claim C7 as stated has a plain aggregation return one row whatever the qual. When the
  row of the initial states does not pass the qual, no row is returned.
\<close>

theorem C7_having_counterexample:
  "map_option (\<lambda>(rows, outcome, st). (rows, outcome))
     (ExecAgg_rows no_row_passes 2 2 (direct_init AGG_PLAIN [hash_phase, plain_phase] [] 1)) =
     Some ([], NoMoreRows)"
proof -
  have "phase_aggstrategy ([hash_phase, plain_phase] ! 1) = AGG_PLAIN"
    "numsets ([hash_phase, plain_phase] ! 1) = 0"
    by (simp_all add: plain_phase_def)
  from plain_empty_input [OF this, of 2 2 no_row_passes AGG_PLAIN 1]
  show ?thesis by (simp add: no_row_passes_def)
qed


end
